theory Spec2Isabelle
  imports Complex_Main "HOL-Library.Sublist"
begin

section \<open>Values and errors of the JavaScript runtime\<close>

text \<open>
  A thrown value. The code only ever looks at the optional \<open>message\<close> of what it catches
  (\<open>error?.message?.includes(...)\<close>, \<open>error instanceof Error ? error.message : ...\<close>), so
  a thrown value is modelled by that field: \<open>JsError (Some m)\<close> is an \<open>Error\<close> with
  message \<open>m\<close>, \<open>JsError None\<close> a thrown value that is no \<open>Error\<close> and has no message.
  Two errors with the same message are the same value.
\<close>

datatype js_error = JsError (message: "string option")

text \<open>\<open>String.prototype.includes\<close>: the argument occurs as a contiguous substring.\<close>

fun js_includes :: "string \<Rightarrow> string \<Rightarrow> bool" where
  "js_includes [] t = (t = [])"
| "js_includes (c # cs) t = (prefix t (c # cs) \<or> js_includes cs t)"

section \<open>The backoff executor: \<open>retryWithBackoff\<close>\<close>

text \<open>
  \<open>retryWithBackoff\<close> is private to the import route and is only called with its defaults
  (\<open>maxRetries = 5\<close>, \<open>baseDelay = 1000\<close>); the attempt bound is a count and is taken as a
  natural number, delays are milliseconds taken as exact reals.

  The operation \<open>fn\<close> is given by the outcome of each of its invocations: \<open>fn n\<close> is what
  the invocation after \<open>n\<close> earlier ones does, \<open>Inl\<close> a rejection and \<open>Inr\<close> a value.
  \<open>random n\<close> is the value of the \<open>n\<close>-th call of \<open>Math.random()\<close> made by this
  executor. The log counts the invocations of \<open>fn\<close> and lists the arguments of
  \<open>sleep\<close> in order.
\<close>

record retry_log =
  calls :: nat
  sleeps :: "real list"

definition is429 :: "js_error \<Rightarrow> bool" where
  "is429 error =
     (case message error of
        None \<Rightarrow> False
      | Some m \<Rightarrow> js_includes m ''429'' \<or> js_includes m ''Resource exhausted'')"

function retry_loop ::
  "(nat \<Rightarrow> js_error + 'a) \<Rightarrow> (nat \<Rightarrow> real) \<Rightarrow> nat \<Rightarrow> real \<Rightarrow> nat \<Rightarrow> retry_log
     \<Rightarrow> (js_error + 'a) \<times> retry_log" where
  "retry_loop fn random maxRetries baseDelay attempt st =
     (if attempt < maxRetries then
        (case fn (calls st) of
           Inr v \<Rightarrow> (Inr v, st\<lparr>calls := calls st + 1\<rparr>)
         | Inl error \<Rightarrow>
             (let st1 = st\<lparr>calls := calls st + 1\<rparr>;
                  isLastAttempt = (attempt = maxRetries - 1)
              in if \<not> is429 error \<or> isLastAttempt then (Inl error, st1)
                 else
                   (let delay = baseDelay * 2 ^ attempt;
                        jitter = random (length (sleeps st1)) * 1000;
                        totalDelay = delay + jitter
                    in retry_loop fn random maxRetries baseDelay (attempt + 1)
                         (st1\<lparr>sleeps := sleeps st1 @ [totalDelay]\<rparr>))))
      else (Inl (JsError (Some ''Max retries exceeded'')), st))"
  by pat_completeness auto
termination
  by (relation "measure (\<lambda>(fn, random, maxRetries, baseDelay, attempt, st). maxRetries - attempt)")
    auto

definition retryWithBackoff ::
  "(nat \<Rightarrow> js_error + 'a) \<Rightarrow> (nat \<Rightarrow> real) \<Rightarrow> nat \<Rightarrow> real \<Rightarrow> (js_error + 'a) \<times> retry_log" where
  "retryWithBackoff fn random maxRetries baseDelay =
     retry_loop fn random maxRetries baseDelay 0 \<lparr>calls = 0, sleeps = []\<rparr>"

text \<open>The delays of the attempts \<open>a\<close> up to \<open>k\<close>, as the loop computes them.\<close>

definition backoff_delays :: "(nat \<Rightarrow> real) \<Rightarrow> real \<Rightarrow> nat \<Rightarrow> nat \<Rightarrow> real list" where
  "backoff_delays random baseDelay a k =
     map (\<lambda>n. baseDelay * 2 ^ n + random n * 1000) [a..<k]"

section \<open>The analysis helpers of \<open>lib/gemini.ts\<close>\<close>

subsection \<open>Runtime values, \<open>trim\<close> and \<open>parseInt\<close>\<close>

text \<open>
  Values as \<open>JSON.parse\<close> and \<open>request.json()\<close> produce them, with \<open>undefined\<close> for a
  missing property. An object is its list of properties, each key once. Strings are lists
  of 8-bit code units.
\<close>

datatype js_value =
    Undefined
  | Null
  | Bool bool
  | Num real
  | Str string
  | Arr "js_value list"
  | Obj "(string \<times> js_value) list"

fun truthy :: "js_value \<Rightarrow> bool" where
  "truthy Undefined = False"
| "truthy Null = False"
| "truthy (Bool b) = b"
| "truthy (Num x) = (x \<noteq> 0)"
| "truthy (Str s) = (s \<noteq> [])"
| "truthy (Arr xs) = True"
| "truthy (Obj fs) = True"

text \<open>\<open>a || b\<close>\<close>

definition or_else :: "js_value \<Rightarrow> js_value \<Rightarrow> js_value" where
  "or_else a b = (if truthy a then a else b)"

text \<open>
  Property access \<open>v.k\<close> for the keys the code reads (\<open>hasImportant\<close>, \<open>flags\<close>,
  \<open>maxEmails\<close>): a \<open>TypeError\<close> on \<open>undefined\<close> and \<open>null\<close>, the property or
  \<open>undefined\<close> on an object, \<open>undefined\<close> on every other value.
\<close>

fun get_prop :: "js_value \<Rightarrow> string \<Rightarrow> js_error + js_value" where
  "get_prop Undefined k = Inl (JsError (Some ''Cannot read properties of undefined''))"
| "get_prop Null k = Inl (JsError (Some ''Cannot read properties of null''))"
| "get_prop (Obj fs) k = Inr (case map_of fs k of None \<Rightarrow> Undefined | Some v \<Rightarrow> v)"
| "get_prop v k = Inr Undefined"

definition isWhiteSpace :: "char \<Rightarrow> bool" where
  "isWhiteSpace c = (c \<in> set [CHR 0x09, CHR 0x0A, CHR 0x0B, CHR 0x0C, CHR 0x0D, CHR 0x20, CHR 0xA0])"

definition trimStart :: "string \<Rightarrow> string" where
  "trimStart s = dropWhile isWhiteSpace s"

definition trim :: "string \<Rightarrow> string" where
  "trim s = rev (trimStart (rev (trimStart s)))"

definition digit_value :: "char \<Rightarrow> nat option" where
  "digit_value c =
     (let n = of_char c :: nat in
      if 48 \<le> n \<and> n \<le> 57 then Some (n - 48)
      else if 97 \<le> n \<and> n \<le> 122 then Some (n - 87)
      else if 65 \<le> n \<and> n \<le> 90 then Some (n - 55)
      else None)"

definition is_radix_digit :: "nat \<Rightarrow> char \<Rightarrow> bool" where
  "is_radix_digit R c = (case digit_value c of None \<Rightarrow> False | Some d \<Rightarrow> d < R)"

definition radix_value :: "nat \<Rightarrow> string \<Rightarrow> nat" where
  "radix_value R Z = foldl (\<lambda>acc c. acc * R + (case digit_value c of None \<Rightarrow> 0 | Some d \<Rightarrow> d)) 0 Z"

text \<open>
  \<open>parseInt(string)\<close> without a radix, after ECMA-262: skip leading white space, read a
  sign, read a \<open>0x\<close>/\<open>0X\<close> prefix (radix 16, otherwise 10), take the longest prefix of
  digits of the radix; no digit gives \<open>NaN\<close>, here \<open>None\<close>. The value is kept as an exact
  integer: the runtime rounds beyond \<open>2^53\<close>, which the clamp of the caller to
  \<open>[0, 100]\<close> cannot observe.
\<close>

definition parseInt :: "string \<Rightarrow> int option" where
  "parseInt string =
     (let S = trimStart string;
          sign = (if take 1 S = ''-'' then - 1 else 1 :: int);
          S1 = (if take 1 S = ''+'' \<or> take 1 S = ''-'' then drop 1 S else S);
          hex = (take 2 S1 = ''0x'' \<or> take 2 S1 = ''0X'');
          R = (if hex then 16 else 10);
          S2 = (if hex then drop 2 S1 else S1);
          Z = takeWhile (is_radix_digit R) S2
      in if Z = [] then None else Some (sign * int (radix_value R Z)))"

subsection \<open>\<open>calculatePriorityScore\<close>\<close>

text \<open>
  The argument is the outcome of \<open>(await model.generateContent(prompt)).response.text()\<close>:
  \<open>Inl\<close> when the call or \<open>text()\<close> throws. The result is what the returned promise
  settles to: \<open>Inl\<close> a rejection, \<open>Inr\<close> the score.
\<close>

definition calculatePriorityScore :: "js_error + string \<Rightarrow> js_error + int" where
  "calculatePriorityScore generated =
     (case generated of
        Inr text \<Rightarrow>
          (case parseInt (trim text) of
             None \<Rightarrow> Inr 50
           | Some score \<Rightarrow> Inr (min 100 (max 0 score)))
      | Inl error \<Rightarrow> Inr 50)"

subsection \<open>\<open>detectImportantInfo\<close>\<close>

record important_info =
  hasImportant :: js_value
  flags :: js_value

text \<open>
  \<open>response.match(/\{[\s\S]*\}/)\<close>: the text from the first \<open>{\<close> to the last \<open>}\<close>
  after it, if there is one.
\<close>

definition match_braces :: "string \<Rightarrow> string option" where
  "match_braces response =
     (let t = dropWhile (\<lambda>c. c \<noteq> CHR ''{'') response
      in if t = [] then None
         else
           (let r = rev (dropWhile (\<lambda>c. c \<noteq> CHR ''}'') (rev (tl t)))
            in if r = [] then None else Some (CHR ''{'' # r)))"

text \<open>
  The body of the \<open>try\<close> block; \<open>Inr None\<close> when it falls through without returning.
  \<open>JSON_parse\<close> is the runtime's \<open>JSON.parse\<close>, a parameter.
\<close>

definition detectImportantInfo_try ::
  "(string \<Rightarrow> js_error + js_value) \<Rightarrow> js_error + string \<Rightarrow> js_error + important_info option" where
  "detectImportantInfo_try JSON_parse generated =
     (case generated of
        Inl error \<Rightarrow> Inl error
      | Inr text \<Rightarrow>
          (case match_braces (trim text) of
             None \<Rightarrow> Inr None
           | Some jsonMatch \<Rightarrow>
               (case JSON_parse jsonMatch of
                  Inl error \<Rightarrow> Inl error
                | Inr parsed \<Rightarrow>
                    (case get_prop parsed ''hasImportant'' of
                       Inl error \<Rightarrow> Inl error
                     | Inr h \<Rightarrow>
                         (case get_prop parsed ''flags'' of
                            Inl error \<Rightarrow> Inl error
                          | Inr f \<Rightarrow>
                              Inr (Some \<lparr>hasImportant = or_else h (Bool False),
                                         flags = or_else f (Arr [])\<rparr>))))))"

definition detectImportantInfo ::
  "(string \<Rightarrow> js_error + js_value) \<Rightarrow> js_error + string \<Rightarrow> js_error + important_info" where
  "detectImportantInfo JSON_parse generated =
     (case detectImportantInfo_try JSON_parse generated of
        Inr (Some result) \<Rightarrow> Inr result
      | Inr None \<Rightarrow> Inr \<lparr>hasImportant = Bool False, flags = Arr []\<rparr>
      | Inl error \<Rightarrow> Inr \<lparr>hasImportant = Bool False, flags = Arr []\<rparr>)"

section \<open>The import route \<open>POST /api/emails/import\<close>\<close>

subsection \<open>Data\<close>

text \<open>\<open>GmailMessage\<close> of \<open>lib/gmail.ts\<close>; \<open>id\<close>, \<open>from\<close> and \<open>to\<close> are renamed.\<close>

record gmail_message =
  msg_id :: string
  threadId :: string
  subject :: string
  from_addr :: string
  fromName :: "string option"
  to_addr :: string
  date :: int
  snippet :: string
  body :: string
  htmlBody :: "string option"

type_synonym gmail_client = string

record gmail_account =
  acc_id :: string
  acc_email :: string

record category =
  cat_id :: string
  cat_name :: string
  cat_description :: string

text \<open>An element of \<open>allGmailMessages\<close>: \<open>{ message, accountId, gmailClient }\<close>.\<close>

record fetched_item =
  gmailMsg :: gmail_message
  accountId :: string
  gmailClient :: "gmail_client option"

text \<open>
  What \<open>analyzeEmailComplete\<close> resolves to, by the fields the route reads:
  \<open>categoryId\<close>, \<open>summary\<close>, \<open>priorityScore\<close>, \<open>importantInfo.hasImportant\<close> and
  \<open>importantInfo.flags\<close>.
\<close>

record analysis =
  an_categoryId :: "string option"
  an_summary :: string
  an_priorityScore :: int
  an_hasImportant :: bool
  an_flags :: "string list"

text \<open>
  A row of \<open>prisma.email\<close>, with the fields \<open>prisma.email.create\<close> is given;
  \<open>importantInfoFlags\<close> holds the list whose JSON text is stored.
\<close>

record email_row =
  messageId :: string
  row_threadId :: string
  row_subject :: string
  row_from :: string
  row_fromName :: "string option"
  row_to :: string
  row_date :: int
  row_snippet :: string
  row_body :: string
  row_htmlBody :: "string option"
  summary :: string
  unsubscribeLink :: "string option"
  categoryId :: "string option"
  gmailAccountId :: "string option"
  aiPriorityScore :: int
  hasImportantInfo :: bool
  importantInfoFlags :: "string list option"

record sender_profile =
  sp_name :: "string option"
  totalEmails :: int
  lastEmailDate :: int

record email_insight =
  emailsProcessed :: int
  emailsArchived :: int
  timeSavedMins :: int

text \<open>\<open>{ success: true }\<close>, \<open>{ success: true, skipped: true }\<close>, \<open>{ success: false, error }\<close>\<close>

datatype item_result = Success | Skipped | Failure js_error

text \<open>
  The per-item \<open>async\<close> function of a batch, cut at its \<open>await\<close>s on the analysis
  call, \<open>findUnique\<close>, \<open>create\<close>, \<open>senderProfile.upsert\<close> and the archive call. A task
  is where one item's run of that function stands.
\<close>

datatype task =
    AwaitAnalysis
  | AwaitFindUnique analysis "string option"
  | AwaitCreate analysis "string option"
  | AwaitUpsert
  | AwaitArchive
  | Settled item_result

datatype event =
    BatchStarted nat "fetched_item list"
  | BatchSettled nat "task list"
  | Pause nat

text \<open>
  The state the route works on: the tables \<open>email\<close>, \<open>senderProfile\<close> (keyed by user and
  sender address) and \<open>emailInsight\<close> (keyed by user and day), the identifiers archived in
  the mailbox, the route's variables \<open>imported\<close>, \<open>skipped\<close> and \<open>errors\<close>, and the
  trace of the batch loop.
\<close>

record state =
  emails :: "email_row list"
  senderProfiles :: "string \<times> string \<rightharpoonup> sender_profile"
  emailInsights :: "string \<times> int \<rightharpoonup> email_insight"
  archived :: "string list"
  imported :: nat
  skipped :: nat
  errors :: "string list"
  trace :: "event list"

text \<open>
  Everything the route gets from outside, as the outcome of each call: the session, the
  request body, the reads of categories and accounts, the mailbox and analysis
  collaborators, \<open>Math.random\<close>, failures of the database calls, the environment variable
  and the clock. Calls made for one new item are indexed by the item's position in
  \<open>newEmails\<close>; \<open>analyzeEmailComplete w i n\<close> is the outcome of the invocation for item
  \<open>i\<close> after \<open>n\<close> earlier ones. \<open>schedule w batchNum\<close> is the order in which the tasks
  of batch \<open>batchNum\<close> are resumed.

  \<open>analyzeEmailComplete\<close> of \<open>lib/gemini.ts\<close> and the regular expressions of
  \<open>extractUnsubscribeLink\<close> are not modelled: the route is verified for every outcome of
  the one and every function for the other.
\<close>

record world =
  session_user_id :: "js_error + string option"
  request_json :: "js_error + js_value"
  category_findMany :: "string \<Rightarrow> js_error + category list"
  gmailAccount_findMany :: "string \<Rightarrow> js_error + gmail_account list"
  getGmailClientFromAccount :: "gmail_account \<Rightarrow> js_error + gmail_client"
  fetchRecentEmailsFromClient :: "gmail_client \<Rightarrow> js_value \<Rightarrow> js_error + gmail_message list"
  fetchRecentEmails :: "string \<Rightarrow> js_value \<Rightarrow> js_error + gmail_message list"
  filter_findUnique_error :: "nat \<Rightarrow> js_error option"
  analyzeEmailComplete :: "nat \<Rightarrow> nat \<Rightarrow> js_error + analysis"
  math_random :: "nat \<Rightarrow> nat \<Rightarrow> real"
  extractUnsubscribeLink :: "string \<Rightarrow> string option \<Rightarrow> string option"
  findUnique_error :: "nat \<Rightarrow> js_error option"
  create_error :: "nat \<Rightarrow> js_error option"
  upsert_error :: "nat \<Rightarrow> js_error option"
  AUTO_ARCHIVE_EMAILS :: "string option"
  archiveEmailWithClient_error :: "nat \<Rightarrow> js_error option"
  archiveEmail_error :: "nat \<Rightarrow> js_error option"
  schedule :: "nat \<Rightarrow> nat list"
  today :: int
  emailInsight_upsert_error :: "js_error option"
  statistics_error :: "js_error option"

text \<open>
  \<open>NextResponse.json(body, { status })\<close>: \<open>ErrorBody error details\<close> is
  \<open>{ error, details }\<close>, and \<open>SummaryBody imported skipped errors\<close> is
  \<open>{ success: true, imported, skipped, errors }\<close>.
\<close>

datatype response_body =
    ErrorBody string "string option"
  | SummaryBody nat nat "string list"

datatype response = Response (status: nat) (json: response_body)

subsection \<open>Fetching and the filter of already stored items\<close>

text \<open>\<open>const { maxEmails = 20 } = body\<close>\<close>

definition destructure_maxEmails :: "js_value \<Rightarrow> js_error + js_value" where
  "destructure_maxEmails body' =
     (case get_prop body' ''maxEmails'' of
        Inl error \<Rightarrow> Inl error
      | Inr v \<Rightarrow> Inr (if v = Undefined then Num 20 else v))"

text \<open>
  The loop over the active accounts: a failure of \<open>getGmailClientFromAccount\<close> or of
  \<open>fetchRecentEmailsFromClient\<close> is caught inside the loop and logged, and the loop goes
  on with the next account.
\<close>

fun fetch_accounts ::
  "world \<Rightarrow> js_value \<Rightarrow> gmail_account list \<Rightarrow> fetched_item list \<Rightarrow> fetched_item list" where
  "fetch_accounts w maxEmails [] allGmailMessages = allGmailMessages"
| "fetch_accounts w maxEmails (account # accounts) allGmailMessages =
     (case getGmailClientFromAccount w account of
        Inl error \<Rightarrow> fetch_accounts w maxEmails accounts allGmailMessages
      | Inr client \<Rightarrow>
          (case fetchRecentEmailsFromClient w client maxEmails of
             Inl error \<Rightarrow> fetch_accounts w maxEmails accounts allGmailMessages
           | Inr messages \<Rightarrow>
               fetch_accounts w maxEmails accounts
                 (allGmailMessages @
                  map (\<lambda>m. \<lparr>gmailMsg = m, accountId = acc_id account, gmailClient = Some client\<rparr>)
                    messages)))"

definition fetch_all ::
  "world \<Rightarrow> string \<Rightarrow> js_value \<Rightarrow> gmail_account list \<Rightarrow> js_error + fetched_item list" where
  "fetch_all w userId maxEmails gmailAccounts =
     (if length gmailAccounts > 0 then Inr (fetch_accounts w maxEmails gmailAccounts [])
      else
        (case fetchRecentEmails w userId maxEmails of
           Inl error \<Rightarrow> Inl error
         | Inr messages \<Rightarrow>
             Inr (map (\<lambda>m. \<lparr>gmailMsg = m, accountId = [], gmailClient = None\<rparr>) messages)))"

text \<open>
  The route up to the list of fetched items: \<open>Inr None\<close> is the 401 of a request without
  a session user (\<open>!session?.user?.id\<close>, which an empty identifier satisfies too),
  \<open>Inl\<close> a failure that reaches the outer \<open>catch\<close>.
\<close>

definition fetch_phase :: "world \<Rightarrow> js_error + (string \<times> category list \<times> fetched_item list) option" where
  "fetch_phase w =
     (case session_user_id w of
        Inl error \<Rightarrow> Inl error
      | Inr None \<Rightarrow> Inr None
      | Inr (Some userId) \<Rightarrow>
          (if userId = [] then Inr None
           else
             (case request_json w of
                Inl error \<Rightarrow> Inl error
              | Inr body' \<Rightarrow>
                  (case destructure_maxEmails body' of
                     Inl error \<Rightarrow> Inl error
                   | Inr maxEmails \<Rightarrow>
                       (case category_findMany w userId of
                          Inl error \<Rightarrow> Inl error
                        | Inr categories \<Rightarrow>
                            (case gmailAccount_findMany w userId of
                               Inl error \<Rightarrow> Inl error
                             | Inr gmailAccounts \<Rightarrow>
                                 (case fetch_all w userId maxEmails gmailAccounts of
                                    Inl error \<Rightarrow> Inl error
                                  | Inr allGmailMessages \<Rightarrow>
                                      Inr (Some (userId, categories, allGmailMessages)))))))))"

text \<open>\<open>prisma.email.findUnique({ where: { messageId } })\<close>\<close>

definition findUnique :: "email_row list \<Rightarrow> string \<Rightarrow> email_row option" where
  "findUnique rows mid = find (\<lambda>r. messageId r = mid) rows"

text \<open>
  The filter loop; \<open>k\<close> counts the lookups made so far. The result is \<open>skipped\<close> and
  \<open>newEmails\<close>.
\<close>

fun filter_existing ::
  "world \<Rightarrow> email_row list \<Rightarrow> nat \<Rightarrow> fetched_item list \<Rightarrow> nat \<Rightarrow> fetched_item list
     \<Rightarrow> js_error + nat \<times> fetched_item list" where
  "filter_existing w rows k [] skipped' newEmails = Inr (skipped', newEmails)"
| "filter_existing w rows k (item # items) skipped' newEmails =
     (case filter_findUnique_error w k of
        Some error \<Rightarrow> Inl error
      | None \<Rightarrow>
          (case findUnique rows (msg_id (gmailMsg item)) of
             Some existing \<Rightarrow> filter_existing w rows (k + 1) items (skipped' + 1) newEmails
           | None \<Rightarrow> filter_existing w rows (k + 1) items skipped' (newEmails @ [item])))"

subsection \<open>One item\<close>

text \<open>The \<open>catch\<close> of the per-item function, and the message it pushes.\<close>

definition failure_message :: "fetched_item \<Rightarrow> string" where
  "failure_message item = ''Failed to process email: '' @ subject (gmailMsg item)"

definition item_failed :: "js_error \<Rightarrow> fetched_item \<Rightarrow> state \<Rightarrow> task \<times> state" where
  "item_failed error item s =
     (Settled (Failure error), s\<lparr>errors := errors s @ [failure_message item]\<rparr>)"

definition new_row :: "fetched_item \<Rightarrow> analysis \<Rightarrow> string option \<Rightarrow> email_row" where
  "new_row item an link =
     (let m = gmailMsg item;
          gmailAccountId' = (if accountId item = [] then None else Some (accountId item))
      in \<lparr>messageId = msg_id m,
          row_threadId = threadId m,
          row_subject = subject m,
          row_from = from_addr m,
          row_fromName = fromName m,
          row_to = to_addr m,
          row_date = date m,
          row_snippet = snippet m,
          row_body = body m,
          row_htmlBody = htmlBody m,
          summary = an_summary an,
          unsubscribeLink = link,
          categoryId = an_categoryId an,
          gmailAccountId = gmailAccountId',
          aiPriorityScore = an_priorityScore an,
          hasImportantInfo = an_hasImportant an,
          importantInfoFlags = (if length (an_flags an) > 0 then Some (an_flags an) else None)\<rparr>)"

text \<open>
  Modelled from the spec: the Prisma schema is not under \<open>src/\<close>. The data model says at
  most one stored message per source identifier, "enforced by a uniqueness constraint"
  (the route's \<open>findUnique\<close> by \<open>messageId\<close> needs that field unique): a \<open>create\<close>
  whose \<open>messageId\<close> is already in the table is rejected.
\<close>

definition email_create :: "email_row \<Rightarrow> email_row list \<Rightarrow> js_error + email_row list" where
  "email_create row rows =
     (if messageId row \<in> messageId ` set rows
      then Inl (JsError (Some ''Unique constraint failed on the fields: (messageId)''))
      else Inr (rows @ [row]))"

definition senderProfile_upsert ::
  "string \<Rightarrow> gmail_message \<Rightarrow> (string \<times> string \<rightharpoonup> sender_profile)
     \<Rightarrow> (string \<times> string \<rightharpoonup> sender_profile)" where
  "senderProfile_upsert userId m profiles =
     (case profiles (userId, from_addr m) of
        None \<Rightarrow>
          profiles((userId, from_addr m) \<mapsto>
            \<lparr>sp_name = fromName m, totalEmails = 1, lastEmailDate = date m\<rparr>)
      | Some p \<Rightarrow>
          profiles((userId, from_addr m) \<mapsto>
            p\<lparr>totalEmails := totalEmails p + 1, lastEmailDate := date m, sp_name := fromName m\<rparr>))"

text \<open>
  One resumption of the task of item \<open>i\<close>: it runs up to its next \<open>await\<close>, or to its
  \<open>return\<close>. A settled task does nothing more.
\<close>

fun task_step :: "world \<Rightarrow> string \<Rightarrow> nat \<Rightarrow> fetched_item \<Rightarrow> task \<Rightarrow> state \<Rightarrow> task \<times> state" where
  "task_step w userId i item AwaitAnalysis s =
     (case fst (retryWithBackoff (analyzeEmailComplete w i) (math_random w i) 5 1000) of
        Inl error \<Rightarrow> item_failed error item s
      | Inr an \<Rightarrow>
          (AwaitFindUnique an
             (extractUnsubscribeLink w (body (gmailMsg item)) (htmlBody (gmailMsg item))), s))"
| "task_step w userId i item (AwaitFindUnique an link) s =
     (case findUnique_error w i of
        Some error \<Rightarrow> item_failed error item s
      | None \<Rightarrow>
          (case findUnique (emails s) (msg_id (gmailMsg item)) of
             None \<Rightarrow> (AwaitCreate an link, s)
           | Some existingEmail \<Rightarrow> (Settled Skipped, s)))"
| "task_step w userId i item (AwaitCreate an link) s =
     (case create_error w i of
        Some error \<Rightarrow> item_failed error item s
      | None \<Rightarrow>
          (case email_create (new_row item an link) (emails s) of
             Inl error \<Rightarrow> item_failed error item s
           | Inr rows \<Rightarrow> (AwaitUpsert, s\<lparr>emails := rows\<rparr>)))"
| "task_step w userId i item AwaitUpsert s =
     (case upsert_error w i of
        Some error \<Rightarrow> item_failed error item s
      | None \<Rightarrow>
          (let s1 = s\<lparr>senderProfiles := senderProfile_upsert userId (gmailMsg item) (senderProfiles s)\<rparr>
           in if AUTO_ARCHIVE_EMAILS w = Some ''true'' then (AwaitArchive, s1)
              else (Settled Success, s1)))"
| "task_step w userId i item AwaitArchive s =
     (let archive_error =
            (if gmailClient item \<noteq> None then archiveEmailWithClient_error w i
             else archiveEmail_error w i)
      in case archive_error of
           Some archiveError \<Rightarrow> (Settled Success, s)
         | None \<Rightarrow> (Settled Success, s\<lparr>archived := archived s @ [msg_id (gmailMsg item)]\<rparr>))"
| "task_step w userId i item (Settled r) s = (Settled r, s)"

subsection \<open>One batch\<close>

text \<open>
  \<open>batch.map(async ...)\<close> starts one task per item and \<open>Promise.all\<close> waits until all
  have settled. The tasks are resumed one at a time, in the order the schedule lists
  their positions in the batch; a position outside the batch, or of a settled task,
  changes nothing. After the schedule every task still gets the five resumptions that
  settle it, so every interleaving of the tasks is the run of some schedule.
\<close>

definition resume ::
  "world \<Rightarrow> string \<Rightarrow> nat \<Rightarrow> fetched_item list \<Rightarrow> task list \<times> state \<Rightarrow> nat \<Rightarrow> task list \<times> state" where
  "resume w userId i batch ts_s j =
     (if j < length (fst ts_s) \<and> j < length batch then
        (let (t, s) = task_step w userId (i + j) (batch ! j) (fst ts_s ! j) (snd ts_s)
         in ((fst ts_s)[j := t], s))
      else ts_s)"

definition completion :: "nat \<Rightarrow> nat list" where
  "completion n = concat (replicate 5 [0..<n])"

definition run_batch ::
  "world \<Rightarrow> string \<Rightarrow> nat \<Rightarrow> fetched_item list \<Rightarrow> nat list \<Rightarrow> state \<Rightarrow> task list \<times> state" where
  "run_batch w userId i batch sched s =
     foldl (resume w userId i batch) (replicate (length batch) AwaitAnalysis, s)
       (sched @ completion (length batch))"

subsection \<open>The batch loop\<close>

definition BATCH_SIZE :: nat where
  "BATCH_SIZE = 4"

definition BATCH_DELAY_MS :: nat where
  "BATCH_DELAY_MS = 60000"

text \<open>The body of the \<open>for\<close> loop, for the batch that starts at index \<open>i\<close>.\<close>

definition batch_round :: "world \<Rightarrow> string \<Rightarrow> fetched_item list \<Rightarrow> nat \<Rightarrow> state \<Rightarrow> state" where
  "batch_round w userId newEmails i s =
     (let batch = take BATCH_SIZE (drop i newEmails);
          batchNum = i div BATCH_SIZE + 1;
          s0 = s\<lparr>trace := trace s @ [BatchStarted batchNum batch]\<rparr>;
          (results, s1) = run_batch w userId i batch (schedule w batchNum) s0;
          successCount = length (filter (\<lambda>r. r = Settled Success) results);
          skippedCount = length (filter (\<lambda>r. r = Settled Skipped) results);
          s2 = s1\<lparr>imported := imported s1 + successCount,
                  skipped := skipped s1 + skippedCount,
                  trace := trace s1 @ [BatchSettled batchNum results]\<rparr>;
          hasMoreBatches = (i + BATCH_SIZE < length newEmails)
      in if hasMoreBatches then s2\<lparr>trace := trace s2 @ [Pause BATCH_DELAY_MS]\<rparr> else s2)"

function batch_loop :: "world \<Rightarrow> string \<Rightarrow> fetched_item list \<Rightarrow> nat \<Rightarrow> state \<Rightarrow> state" where
  "batch_loop w userId newEmails i s =
     (if i < length newEmails
      then batch_loop w userId newEmails (i + BATCH_SIZE) (batch_round w userId newEmails i s)
      else s)"
  by pat_completeness auto
termination
  by (relation "measure (\<lambda>(w, userId, newEmails, i, s). length newEmails - i)")
    (auto simp: BATCH_SIZE_def)

subsection \<open>Daily insights, statistics and the response\<close>

text \<open>\<open>prisma.emailInsight.upsert\<close> for the user and the current day.\<close>

definition emailInsight_upsert ::
  "string \<Rightarrow> int \<Rightarrow> nat \<Rightarrow> (string \<times> int \<rightharpoonup> email_insight) \<Rightarrow> (string \<times> int \<rightharpoonup> email_insight)" where
  "emailInsight_upsert userId day n insights =
     (case insights (userId, day) of
        None \<Rightarrow>
          insights((userId, day) \<mapsto>
            \<lparr>emailsProcessed = int n, emailsArchived = int n,
             timeSavedMins = \<lfloor>real n * 2\<rfloor>\<rparr>)
      | Some r \<Rightarrow>
          insights((userId, day) \<mapsto>
            r\<lparr>emailsProcessed := emailsProcessed r + int n,
              emailsArchived := emailsArchived r + int n,
              timeSavedMins := timeSavedMins r + \<lfloor>real n * 2\<rfloor>\<rparr>))"

definition failed :: "js_error \<Rightarrow> response" where
  "failed error =
     Response 500
       (ErrorBody ''Failed to import emails''
          (Some (case message error of Some m \<Rightarrow> m | None \<Rightarrow> ''Unknown error'')))"

text \<open>
  The route from the filter on, for a signed-in user and the fetched items. The two
  \<open>findMany\<close> of the statistics run only when something was imported; they change
  nothing, and their failure is \<open>statistics_error\<close>.
\<close>

definition import_run :: "world \<Rightarrow> string \<Rightarrow> fetched_item list \<Rightarrow> state \<Rightarrow> response \<times> state" where
  "import_run w userId allGmailMessages s =
     (let s0 = s\<lparr>imported := 0, skipped := 0, errors := [], trace := []\<rparr>
      in case filter_existing w (emails s0) 0 allGmailMessages 0 [] of
           Inl error \<Rightarrow> (failed error, s0)
         | Inr (skipped', newEmails) \<Rightarrow>
             (let s1 = batch_loop w userId newEmails 0 (s0\<lparr>skipped := skipped'\<rparr>)
              in case emailInsight_upsert_error w of
                   Some error \<Rightarrow> (failed error, s1)
                 | None \<Rightarrow>
                     (let s2 = s1\<lparr>emailInsights :=
                                  emailInsight_upsert userId (today w) (imported s1) (emailInsights s1)\<rparr>
                      in case (if imported s2 > 0 then statistics_error w else None) of
                           Some error \<Rightarrow> (failed error, s2)
                         | None \<Rightarrow>
                             (Response 200 (SummaryBody (imported s2) (skipped s2) (errors s2)), s2))))"

definition POST :: "world \<Rightarrow> state \<Rightarrow> response \<times> state" where
  "POST w s =
     (case fetch_phase w of
        Inl error \<Rightarrow> (failed error, s)
      | Inr None \<Rightarrow> (Response 401 (ErrorBody ''Unauthorized'' None), s)
      | Inr (Some (userId, categories, allGmailMessages)) \<Rightarrow>
          import_run w userId allGmailMessages s)"

section \<open>Notions used to state the properties\<close>

text \<open>What a trace says: the batches started, the pauses made, the settled tasks in order.\<close>

fun started_batches :: "event list \<Rightarrow> fetched_item list list" where
  "started_batches [] = []"
| "started_batches (BatchStarted n batch # evs) = batch # started_batches evs"
| "started_batches (ev # evs) = started_batches evs"

fun pauses :: "event list \<Rightarrow> nat list" where
  "pauses [] = []"
| "pauses (Pause ms # evs) = ms # pauses evs"
| "pauses (ev # evs) = pauses evs"

fun item_results :: "event list \<Rightarrow> task list" where
  "item_results [] = []"
| "item_results (BatchSettled n results # evs) = results @ item_results evs"
| "item_results (ev # evs) = item_results evs"

definition is_settled :: "task \<Rightarrow> bool" where
  "is_settled t = (case t of Settled r \<Rightarrow> True | _ \<Rightarrow> False)"

definition is_failure :: "task \<Rightarrow> bool" where
  "is_failure t = (case t of Settled (Failure error) \<Rightarrow> True | _ \<Rightarrow> False)"

text \<open>
  A trace is sequenced when it is a row of batches, each started and then settled with one
  settled task per item before anything else happens, with one pause of the batch delay
  between two batches and none after the last.
\<close>

fun sequenced :: "event list \<Rightarrow> bool" where
  "sequenced [] = True"
| "sequenced [BatchStarted n batch, BatchSettled n' results] =
     (n = n' \<and> length results = length batch \<and> list_all is_settled results)"
| "sequenced (BatchStarted n batch # BatchSettled n' results # Pause ms # BatchStarted m batch' # evs) =
     (n = n' \<and> length results = length batch \<and> list_all is_settled results
      \<and> ms = BATCH_DELAY_MS \<and> sequenced (BatchStarted m batch' # evs))"
| "sequenced evs = False"

text \<open>How many resumptions a task may still need.\<close>

fun resumptions_left :: "task \<Rightarrow> nat" where
  "resumptions_left AwaitAnalysis = 5"
| "resumptions_left (AwaitFindUnique an link) = 4"
| "resumptions_left (AwaitCreate an link) = 3"
| "resumptions_left AwaitUpsert = 2"
| "resumptions_left AwaitArchive = 1"
| "resumptions_left (Settled r) = 0"


definition stored :: "email_row list \<Rightarrow> fetched_item \<Rightarrow> bool" where
  "stored rows item = (msg_id (gmailMsg item) \<in> messageId ` set rows)"

text \<open>The analysis of new item \<open>i\<close>, as the backoff executor returns it.\<close>

definition analysis_of :: "world \<Rightarrow> nat \<Rightarrow> js_error + analysis" where
  "analysis_of w i = fst (retryWithBackoff (analyzeEmailComplete w i) (math_random w i) 5 1000)"

text \<open>
  The fetched items the filter lets through, and the state when the batch loop has
  finished.
\<close>

definition new_items :: "email_row list \<Rightarrow> fetched_item list \<Rightarrow> fetched_item list" where
  "new_items rows allGmailMessages = filter (\<lambda>item. \<not> stored rows item) allGmailMessages"

definition after_loop :: "world \<Rightarrow> string \<Rightarrow> fetched_item list \<Rightarrow> state \<Rightarrow> state" where
  "after_loop w userId allGmailMessages s =
     batch_loop w userId (new_items (emails s) allGmailMessages) 0
       (s\<lparr>imported := 0, errors := [], trace := [],
          skipped := length (filter (stored (emails s)) allGmailMessages)\<rparr>)"

text \<open>
  What the batch loop, started at index \<open>i\<close> in state \<open>s\<close>, has added to the trace
  when it ends in state \<open>s'\<close>.
\<close>

definition loop_trace ::
  "world \<Rightarrow> fetched_item list \<Rightarrow> nat \<Rightarrow> state \<Rightarrow> state \<Rightarrow> event list \<Rightarrow> bool" where
  "loop_trace w newEmails i s s' evs \<longleftrightarrow>
     trace s' = trace s @ evs
   \<and> concat (started_batches evs) = drop i newEmails
   \<and> (\<forall>b \<in> set (started_batches evs). b \<noteq> [] \<and> length b \<le> BATCH_SIZE)
   \<and> length (started_batches evs) = (length newEmails - i + 3) div 4
   \<and> pauses evs = replicate ((length newEmails - i + 3) div 4 - 1) BATCH_DELAY_MS
   \<and> sequenced evs
   \<and> (i < length newEmails \<longrightarrow> (\<exists>n b rest. evs = BatchStarted n b # rest))
   \<and> length (item_results evs) = length newEmails - i
   \<and> list_all is_settled (item_results evs)
   \<and> imported s' = imported s + length (filter (\<lambda>r. r = Settled Success) (item_results evs))
   \<and> skipped s' = skipped s + length (filter (\<lambda>r. r = Settled Skipped) (item_results evs))
   \<and> length (errors s') = length (errors s) + length (filter is_failure (item_results evs))
   \<and> (\<forall>p e. i \<le> p \<and> p < length newEmails \<and> analysis_of w p = Inl e \<longrightarrow>
         item_results evs ! (p - i) = Settled (Failure e)
       \<and> failure_message (newEmails ! p) \<in> set (errors s'))"



subsection \<open>Example inputs\<close>

definition example_message :: "string \<Rightarrow> string \<Rightarrow> gmail_message" where
  "example_message mid subj =
     \<lparr>msg_id = mid, threadId = ''t'', subject = subj, from_addr = ''news@example.com'',
      fromName = None, to_addr = ''me@example.com'', date = 0, snippet = ''hello'',
      body = ''hello world'', htmlBody = None\<rparr>"

definition example_analysis :: analysis where
  "example_analysis =
     \<lparr>an_categoryId = None, an_summary = ''A greeting.'', an_priorityScore = 40,
      an_hasImportant = False, an_flags = []\<rparr>"

definition example_item :: "string \<Rightarrow> string \<Rightarrow> fetched_item" where
  "example_item mid subj = \<lparr>gmailMsg = example_message mid subj, accountId = [], gmailClient = None\<rparr>"

text \<open>
  A signed-in user without Gmail accounts, whose mailbox holds the given messages; every
  call succeeds.
\<close>

definition example_world :: "gmail_message list \<Rightarrow> world" where
  "example_world messages =
     \<lparr>session_user_id = Inr (Some ''u1''),
      request_json = Inr (Obj []),
      category_findMany = (\<lambda>u. Inr []),
      gmailAccount_findMany = (\<lambda>u. Inr []),
      getGmailClientFromAccount = (\<lambda>a. Inr ''client''),
      fetchRecentEmailsFromClient = (\<lambda>c n. Inr []),
      fetchRecentEmails = (\<lambda>u n. Inr messages),
      filter_findUnique_error = (\<lambda>k. None),
      analyzeEmailComplete = (\<lambda>i n. Inr example_analysis),
      math_random = (\<lambda>i n. 0),
      extractUnsubscribeLink = (\<lambda>b h. None),
      findUnique_error = (\<lambda>i. None),
      create_error = (\<lambda>i. None),
      upsert_error = (\<lambda>i. None),
      AUTO_ARCHIVE_EMAILS = None,
      archiveEmailWithClient_error = (\<lambda>i. None),
      archiveEmail_error = (\<lambda>i. None),
      schedule = (\<lambda>n. []),
      today = 0,
      emailInsight_upsert_error = None,
      statistics_error = None\<rparr>"

definition empty_state :: state where
  "empty_state =
     \<lparr>emails = [], senderProfiles = Map.empty, emailInsights = Map.empty, archived = [],
      imported = 0, skipped = 0, errors = [], trace = []\<rparr>"

text \<open>
  A mailbox of three messages of which \<open>a\<close> is already stored, and a world in which the
  analysis of the second new item, \<open>c\<close>, is rate-limited once and then fails with an
  error that is not rate-limited.
\<close>

definition example_mailbox :: "gmail_message list" where
  "example_mailbox =
     [example_message ''a'' ''A'', example_message ''b'' ''B'', example_message ''c'' ''C'']"

definition example_failing_world :: world where
  "example_failing_world =
     (example_world example_mailbox)
       \<lparr>analyzeEmailComplete :=
          (\<lambda>i n. if i = 1
                 then (if n = 0 then Inl (JsError (Some ''429 Too Many Requests''))
                       else Inl (JsError (Some ''400 Bad Request'')))
                 else Inr example_analysis)\<rparr>"

definition example_state :: state where
  "example_state =
     empty_state\<lparr>emails := [new_row (example_item ''a'' ''A'') example_analysis None]\<rparr>"

text \<open>
  The same run when the upsert of the daily insight fails, and a user with one active
  Gmail account from which nothing can be fetched.
\<close>

definition example_upsert_failing_world :: world where
  "example_upsert_failing_world =
     example_failing_world\<lparr>emailInsight_upsert_error := Some (JsError (Some ''database is locked''))\<rparr>"


section \<open>Properties\<close>

lemma js_includes_iff_sublist: "js_includes s t \<longleftrightarrow> sublist t s"
  by (induction s) (auto simp: sublist_Cons_right)

section \<open>Properties of the backoff executor\<close>

declare retry_loop.simps [simp del]

lemma retry_loop_skip:
  assumes "k < maxRetries"
    and "\<forall>i. a \<le> i \<and> i < k \<longrightarrow> (\<exists>e. fn i = Inl e \<and> is429 e)"
    and "a \<le> k" and "length sl = a"
  shows "retry_loop fn random maxRetries baseDelay a \<lparr>calls = a, sleeps = sl\<rparr> =
         retry_loop fn random maxRetries baseDelay k
           \<lparr>calls = k, sleeps = sl @ backoff_delays random baseDelay a k\<rparr>"
  using assms
proof (induction "k - a" arbitrary: a sl)
  case 0
  then show ?case by (simp add: backoff_delays_def)
next
  case (Suc d)
  then have lt: "a < k" by simp
  with Suc.prems obtain e where e: "fn a = Inl e" "is429 e" by auto
  let ?sl = "sl @ [baseDelay * 2 ^ a + random a * 1000]"
  have step: "retry_loop fn random maxRetries baseDelay a \<lparr>calls = a, sleeps = sl\<rparr> =
              retry_loop fn random maxRetries baseDelay (a + 1) \<lparr>calls = a + 1, sleeps = ?sl\<rparr>"
  proof -
    have "a < maxRetries" "a \<noteq> maxRetries - 1"
      using lt Suc.prems(1) by arith+
    then show ?thesis
      using e Suc.prems(4) by (subst retry_loop.simps) (simp add: Let_def)
  qed
  have "retry_loop fn random maxRetries baseDelay (a + 1) \<lparr>calls = a + 1, sleeps = ?sl\<rparr> =
        retry_loop fn random maxRetries baseDelay k
          \<lparr>calls = k, sleeps = ?sl @ backoff_delays random baseDelay (a + 1) k\<rparr>"
    using Suc.hyps(2) Suc.prems lt by (intro Suc.hyps(1)) auto
  with step lt show ?case
    by (simp add: upt_conv_Cons backoff_delays_def)
qed

lemma retry_loop_calls_le:
  "calls (snd (retry_loop fn random maxRetries baseDelay a st)) \<le> calls st + (maxRetries - a)"
proof (induction fn random maxRetries baseDelay a st rule: retry_loop.induct)
  case (1 fn random maxRetries baseDelay attempt st)
  show ?case
  proof (cases "attempt < maxRetries")
    case False
    then show ?thesis by (subst retry_loop.simps) simp
  next
    case lt: True
    show ?thesis
    proof (cases "fn (calls st)")
      case (Inr v)
      with lt show ?thesis by (subst retry_loop.simps) simp
    next
      case (Inl error)
      show ?thesis
      proof (cases "\<not> is429 error \<or> attempt = maxRetries - 1")
        case True
        with lt Inl show ?thesis by (subst retry_loop.simps) auto
      next
        case False
        with lt Inl "1.IH" [OF lt Inl refl refl False refl refl refl]
        show ?thesis by (subst retry_loop.simps) (simp add: Let_def)
      qed
    qed
  qed
qed



text \<open>
  Claim C2. \<open>retryWithBackoff\<close> invokes the operation at most \<open>maxRetries\<close> times; an
  error of the first invocation that is not rate-limited is propagated as it is after that
  one invocation; and when all \<open>maxRetries \<ge> 1\<close> invocations fail rate-limited, what is
  propagated is the error of the last invocation, not the error
  \<open>Max retries exceeded\<close>.
\<close>

theorem retryWithBackoff_attempts_and_propagation:
  "calls (snd (retryWithBackoff fn random maxRetries baseDelay)) \<le> maxRetries
 \<and> (1 \<le> maxRetries \<and> fn1 0 = Inl e \<and> \<not> is429 e \<longrightarrow>
      retryWithBackoff fn1 random maxRetries baseDelay = (Inl e, \<lparr>calls = 1, sleeps = []\<rparr>))
 \<and> (1 \<le> maxRetries \<and> (\<forall>i<maxRetries. \<exists>e'. fn2 i = Inl e' \<and> is429 e') \<longrightarrow>
      fst (retryWithBackoff fn2 random maxRetries baseDelay) = fn2 (maxRetries - 1)
    \<and> calls (snd (retryWithBackoff fn2 random maxRetries baseDelay)) = maxRetries
    \<and> fst (retryWithBackoff fn2 random maxRetries baseDelay) \<noteq> Inl (JsError (Some ''Max retries exceeded'')))"
proof (intro conjI impI)
  show "calls (snd (retryWithBackoff fn random maxRetries baseDelay)) \<le> maxRetries"
    unfolding retryWithBackoff_def
    using retry_loop_calls_le [of fn random maxRetries baseDelay 0 "\<lparr>calls = 0, sleeps = []\<rparr>"]
    by simp
next
  assume "1 \<le> maxRetries \<and> fn1 0 = Inl e \<and> \<not> is429 e"
  then show "retryWithBackoff fn1 random maxRetries baseDelay = (Inl e, \<lparr>calls = 1, sleeps = []\<rparr>)"
    unfolding retryWithBackoff_def by (subst retry_loop.simps) simp
next
  assume a: "1 \<le> maxRetries \<and> (\<forall>i<maxRetries. \<exists>e'. fn2 i = Inl e' \<and> is429 e')"
  define k where "k = maxRetries - 1"
  from a have k: "k < maxRetries" by (simp add: k_def)
  from a k obtain e' where e': "fn2 k = Inl e'" "is429 e'" by blast
  have "retryWithBackoff fn2 random maxRetries baseDelay =
        retry_loop fn2 random maxRetries baseDelay k
          \<lparr>calls = k, sleeps = backoff_delays random baseDelay 0 k\<rparr>"
    unfolding retryWithBackoff_def
    using a k by (subst retry_loop_skip [where k = k]) auto
  also have "\<dots> = (Inl e', \<lparr>calls = k + 1, sleeps = backoff_delays random baseDelay 0 k\<rparr>)"
    using k e' by (subst retry_loop.simps) (simp add: k_def)
  finally have r: "retryWithBackoff fn2 random maxRetries baseDelay =
        (Inl e', \<lparr>calls = k + 1, sleeps = backoff_delays random baseDelay 0 k\<rparr>)" .
  show "fst (retryWithBackoff fn2 random maxRetries baseDelay) = fn2 (maxRetries - 1)"
    using r e' by (simp add: k_def)
  show "calls (snd (retryWithBackoff fn2 random maxRetries baseDelay)) = maxRetries"
    using r k by (simp add: k_def)
  have "\<not> is429 (JsError (Some ''Max retries exceeded''))"
    by (simp add: is429_def)
  with e' have "e' \<noteq> JsError (Some ''Max retries exceeded'')" by auto
  then show "fst (retryWithBackoff fn2 random maxRetries baseDelay) \<noteq> Inl (JsError (Some ''Max retries exceeded''))"
    using r by simp
qed

theorem retryWithBackoff_attempts_and_propagation_witness:
  "calls (snd (retryWithBackoff (\<lambda>n. Inr (0::nat)) (\<lambda>n. 0) 5 1000)) \<le> 5
 \<and> retryWithBackoff (\<lambda>n. Inl (JsError (Some ''socket hang up'')) :: js_error + nat) (\<lambda>n. 0) 5 1000
      = (Inl (JsError (Some ''socket hang up'')), \<lparr>calls = 1, sleeps = []\<rparr>)
 \<and> fst (retryWithBackoff (\<lambda>n. Inl (JsError (Some ''Resource exhausted'')) :: js_error + nat) (\<lambda>n. 0) 5 1000)
      = Inl (JsError (Some ''Resource exhausted''))
 \<and> calls (snd (retryWithBackoff (\<lambda>n. Inl (JsError (Some ''Resource exhausted'')) :: js_error + nat) (\<lambda>n. 0) 5 1000)) = 5"
  using retryWithBackoff_attempts_and_propagation [of "\<lambda>n. Inr (0::nat)" "\<lambda>n. 0" 5 1000
      "\<lambda>n. Inl (JsError (Some ''socket hang up''))" "JsError (Some ''socket hang up'')"
      "\<lambda>n. Inl (JsError (Some ''Resource exhausted''))"]
  by (simp add: is429_def) blast

section \<open>Properties of the analysis helpers\<close>

lemmas parseInt_eval =
  parseInt_def trim_def trimStart_def isWhiteSpace_def is_radix_digit_def digit_value_def
  radix_value_def Let_def

text \<open>
  Claim C7. \<open>calculatePriorityScore\<close> never rejects and its score is an integer in
  \<open>[0, 100]\<close>: a response that \<open>parseInt\<close> reads as \<open>m\<close> gives
  \<open>min 100 (max 0 m)\<close>, a response it reads as \<open>NaN\<close> gives 50, and a failed call
  gives 50.
\<close>

theorem calculatePriorityScore_clamped_or_neutral:
  "(\<exists>n. calculatePriorityScore generated = Inr n \<and> 0 \<le> n \<and> n \<le> 100)
 \<and> (parseInt (trim text) = Some m \<longrightarrow>
       calculatePriorityScore (Inr text) = Inr (min 100 (max 0 m)))
 \<and> (parseInt (trim text') = None \<longrightarrow> calculatePriorityScore (Inr text') = Inr 50)
 \<and> calculatePriorityScore (Inl error) = Inr 50"
  by (auto simp: calculatePriorityScore_def split: sum.splits option.splits)

theorem calculatePriorityScore_clamped_or_neutral_witness:
  "(\<exists>n. calculatePriorityScore (Inr ''-3'') = Inr n \<and> 0 \<le> n \<and> n \<le> 100)
 \<and> calculatePriorityScore (Inr '' 150 '') = Inr 100
 \<and> calculatePriorityScore (Inr ''not a number'') = Inr 50
 \<and> calculatePriorityScore (Inl (JsError (Some ''fetch failed''))) = Inr 50"
  using calculatePriorityScore_clamped_or_neutral [of "Inr ''-3''" "'' 150 ''" 150 "''not a number''" "JsError (Some ''fetch failed'')"]
  by (simp add: parseInt_eval)

text \<open>
  Claim C8. \<open>detectImportantInfo\<close> never rejects, and it resolves to
  \<open>{ hasImportant: false, flags: [] }\<close> when the call fails, when the response has no
  text in braces, and when \<open>JSON.parse\<close> of that text throws.
\<close>

theorem detectImportantInfo_never_throws:
  "(\<exists>r. detectImportantInfo JSON_parse generated = Inr r)
 \<and> detectImportantInfo JSON_parse (Inl error) = Inr \<lparr>hasImportant = Bool False, flags = Arr []\<rparr>
 \<and> (match_braces (trim text) = None \<longrightarrow>
       detectImportantInfo JSON_parse (Inr text) = Inr \<lparr>hasImportant = Bool False, flags = Arr []\<rparr>)
 \<and> (match_braces (trim text') = Some jsonMatch \<and> JSON_parse jsonMatch = Inl error' \<longrightarrow>
       detectImportantInfo JSON_parse (Inr text') = Inr \<lparr>hasImportant = Bool False, flags = Arr []\<rparr>)"
  by (auto simp: detectImportantInfo_def detectImportantInfo_try_def split: sum.splits option.splits)

theorem detectImportantInfo_never_throws_witness:
  "(\<exists>r. detectImportantInfo (\<lambda>t. Inl (JsError (Some ''Unexpected token''))) (Inr ''{oops}'') = Inr r)
 \<and> detectImportantInfo (\<lambda>t. Inl (JsError (Some ''Unexpected token''))) (Inl (JsError (Some ''fetch failed'')))
      = Inr \<lparr>hasImportant = Bool False, flags = Arr []\<rparr>
 \<and> detectImportantInfo (\<lambda>t. Inl (JsError (Some ''Unexpected token''))) (Inr ''nothing notable'')
      = Inr \<lparr>hasImportant = Bool False, flags = Arr []\<rparr>
 \<and> detectImportantInfo (\<lambda>t. Inl (JsError (Some ''Unexpected token''))) (Inr ''see {oops} here'')
      = Inr \<lparr>hasImportant = Bool False, flags = Arr []\<rparr>"
  using detectImportantInfo_never_throws [of "\<lambda>t. Inl (JsError (Some ''Unexpected token''))" "Inr ''{oops}''"
      "JsError (Some ''fetch failed'')" "''nothing notable''" "''see {oops} here''" "''{oops}''"
      "JsError (Some ''Unexpected token'')"]
  by (simp add: match_braces_def trim_def trimStart_def isWhiteSpace_def)

section \<open>Properties of the import route\<close>

subsection \<open>One resumption\<close>

lemma item_failed_simps [simp]:
  "fst (item_failed error item s) = Settled (Failure error)"
  "emails (snd (item_failed error item s)) = emails s"
  "senderProfiles (snd (item_failed error item s)) = senderProfiles s"
  "emailInsights (snd (item_failed error item s)) = emailInsights s"
  "imported (snd (item_failed error item s)) = imported s"
  "skipped (snd (item_failed error item s)) = skipped s"
  "trace (snd (item_failed error item s)) = trace s"
  "errors (snd (item_failed error item s)) =
     errors s @ [failure_message item]"
  by (simp_all add: item_failed_def)

lemma task_step_frame:
  "emailInsights (snd (task_step w userId i item t s)) = emailInsights s"
  "imported (snd (task_step w userId i item t s)) = imported s"
  "skipped (snd (task_step w userId i item t s)) = skipped s"
  "trace (snd (task_step w userId i item t s)) = trace s"
  by (cases t; simp add: Let_def split: sum.splits option.splits)+

lemma task_step_rank:
  "resumptions_left (fst (task_step w userId i item t s)) \<le> resumptions_left t - 1"
  by (cases t; simp add: Let_def split: sum.splits option.splits)





lemma task_step_errors:
  "errors (snd (task_step w userId i item t s)) =
     errors s @ (if is_failure (fst (task_step w userId i item t s)) \<and> \<not> is_failure t
                 then [failure_message item] else [])"
  by (cases t; simp add: Let_def is_failure_def split: sum.splits option.splits item_result.splits)


subsection \<open>A batch under a schedule\<close>

lemma resume_eq:
  "resume w userId i batch x j =
     (if j < length (fst x) \<and> j < length batch
      then ((fst x)[j := fst (task_step w userId (i + j) (batch ! j) (fst x ! j) (snd x))],
            snd (task_step w userId (i + j) (batch ! j) (fst x ! j) (snd x)))
      else x)"
  by (simp add: resume_def Let_def case_prod_beta)

lemma resume_length [simp]: "length (fst (resume w userId i batch x j)) = length (fst x)"
  by (simp add: resume_eq)

lemma foldl_resume_length [simp]:
  "length (fst (foldl (resume w userId i batch) x js)) = length (fst x)"
  by (induction js arbitrary: x) simp_all

lemma foldl_resume_invariant:
  assumes "P x" and "\<And>y j. P y \<Longrightarrow> P (resume w userId i batch y j)"
  shows "P (foldl (resume w userId i batch) x js)"
  using assms(1) by (induction js arbitrary: x) (simp_all add: assms(2))

lemma run_batch_length [simp]: "length (fst (run_batch w userId i batch sched s)) = length batch"
  by (simp add: run_batch_def)

lemma resume_frame:
  "emailInsights (snd (resume w userId i batch x j)) = emailInsights (snd x)"
  "imported (snd (resume w userId i batch x j)) = imported (snd x)"
  "skipped (snd (resume w userId i batch x j)) = skipped (snd x)"
  "trace (snd (resume w userId i batch x j)) = trace (snd x)"
  by (simp_all add: resume_eq task_step_frame)

lemma run_batch_frame:
  "emailInsights (snd (run_batch w userId i batch sched s)) = emailInsights s"
  "imported (snd (run_batch w userId i batch sched s)) = imported s"
  "skipped (snd (run_batch w userId i batch sched s)) = skipped s"
  "trace (snd (run_batch w userId i batch sched s)) = trace s"
  unfolding run_batch_def
  by (rule foldl_resume_invariant; simp add: resume_frame)+



text \<open>Every task settles.\<close>

lemma resume_rank:
  assumes "length (fst x) = length batch" and "k < length batch"
  shows "resumptions_left (fst (resume w userId i batch x j) ! k)
           \<le> resumptions_left (fst x ! k) - (if j = k then 1 else 0)"
  using assms task_step_rank [of w userId "i + j" "batch ! j" "fst x ! j" "snd x"]
  by (auto simp: resume_eq nth_list_update)

lemma foldl_resume_rank:
  assumes "length (fst x) = length batch" and "k < length batch"
  shows "resumptions_left (fst (foldl (resume w userId i batch) x js) ! k)
           \<le> resumptions_left (fst x ! k) - count_list js k"
  using assms
proof (induction js arbitrary: x)
  case Nil
  then show ?case by simp
next
  case (Cons j js)
  have "resumptions_left (fst (foldl (resume w userId i batch) (resume w userId i batch x j) js) ! k)
          \<le> resumptions_left (fst (resume w userId i batch x j) ! k) - count_list js k"
    using Cons.prems by (intro Cons.IH) simp_all
  with resume_rank [OF Cons.prems, of w userId i j] show ?case
    by (simp split: if_splits)
qed

lemma count_list_completion: "k < n \<Longrightarrow> count_list (completion n) k = 5"
proof -
  assume "k < n"
  have "count_list [0..<m] k = (if k < m then 1 else 0)" for m
    by (induction m) auto
  with \<open>k < n\<close> have "count_list [0..<n] k = 1"
    by simp
  then show ?thesis
    by (simp add: completion_def eval_nat_numeral)
qed

lemma resumptions_left_0: "resumptions_left t = 0 \<longleftrightarrow> is_settled t"
  by (cases t) (simp_all add: is_settled_def)

lemma run_batch_settled: "list_all is_settled (fst (run_batch w userId i batch sched s))"
proof -
  have "is_settled (fst (run_batch w userId i batch sched s) ! k)" if "k < length batch" for k
  proof -
    have "resumptions_left (fst (run_batch w userId i batch sched s) ! k)
            \<le> resumptions_left (replicate (length batch) AwaitAnalysis ! k)
                - count_list (sched @ completion (length batch)) k"
      unfolding run_batch_def using that by (intro foldl_resume_rank [THEN order_trans]) simp_all
    then show ?thesis
      using that by (simp add: count_list_completion resumptions_left_0)
  qed
  then show ?thesis
    by (simp add: list_all_length)
qed

text \<open>One error message per failed task.\<close>

lemma filter_update_length:
  "j < length xs \<Longrightarrow>
     length (filter P (xs[j := y])) + (if P (xs ! j) then 1 else 0)
       = length (filter P xs) + (if P y then 1 else 0)"
proof (induction xs arbitrary: j)
  case Nil
  then show ?case by simp
next
  case (Cons x xs)
  show ?case
  proof (cases j)
    case 0
    then show ?thesis by simp
  next
    case (Suc k)
    with Cons.prems have "k < length xs" by simp
    from Cons.IH [OF this] Suc show ?thesis by simp
  qed
qed

lemma task_step_failure_stays: "is_failure t \<Longrightarrow> task_step w userId i item t s = (t, s)"
  by (cases t) (simp_all add: is_failure_def)

lemma resume_errors_count:
  "length (errors (snd (resume w userId i batch x j))) + length (filter is_failure (fst x))
     = length (errors (snd x)) + length (filter is_failure (fst (resume w userId i batch x j)))"
proof (cases "j < length (fst x) \<and> j < length batch")
  case False
  then show ?thesis by (auto simp: resume_eq)
next
  case True
  let ?r = "task_step w userId (i + j) (batch ! j) (fst x ! j) (snd x)"
  have r: "resume w userId i batch x j = ((fst x)[j := fst ?r], snd ?r)"
    using True by (simp add: resume_eq)
  show ?thesis
  proof (cases "is_failure (fst x ! j)")
    case f: True
    then show ?thesis
      unfolding r using True by (simp add: task_step_failure_stays)
  next
    case f: False
    with True filter_update_length [of j "fst x" is_failure "fst ?r"]
      task_step_errors [of w userId "i + j" "batch ! j" "fst x ! j" "snd x"]
    show ?thesis unfolding r by (simp split: if_splits)
  qed
qed

lemma run_batch_errors_count:
  "length (errors (snd (run_batch w userId i batch sched s)))
     = length (errors s) + length (filter is_failure (fst (run_batch w userId i batch sched s)))"
proof -
  let ?P = "\<lambda>x. length (errors (snd x)) = length (errors s) + length (filter is_failure (fst x))"
  have "?P (foldl (resume w userId i batch) (replicate (length batch) AwaitAnalysis, s)
          (sched @ completion (length batch)))"
  proof (rule foldl_resume_invariant)
    show "?P (replicate (length batch) AwaitAnalysis, s)"
      by (simp add: is_failure_def)
  next
    fix y :: "task list \<times> state" and j assume "?P y"
    with resume_errors_count [of w userId i batch y j] show "?P (resume w userId i batch y j)"
      by simp
  qed
  then show ?thesis by (simp add: run_batch_def)
qed

lemma resume_errors_prefix: "prefix (errors (snd x)) (errors (snd (resume w userId i batch x j)))"
  using task_step_errors [of w userId "i + j" "batch ! j" "fst x ! j" "snd x"]
  by (simp add: resume_eq)

lemma run_batch_errors_prefix: "prefix (errors s) (errors (snd (run_batch w userId i batch sched s)))"
  unfolding run_batch_def
  by (rule foldl_resume_invariant) (auto intro: prefix_order.trans resume_errors_prefix)

lemma settled_cases:
  "is_settled t \<Longrightarrow> t = Settled Success \<or> t = Settled Skipped \<or> is_failure t"
  by (cases t; simp add: is_settled_def is_failure_def split: item_result.splits)

lemma settled_partition:
  "list_all is_settled ts \<Longrightarrow>
     length (filter (\<lambda>r. r = Settled Success) ts) + length (filter (\<lambda>r. r = Settled Skipped) ts)
       + length (filter is_failure ts) = length ts"
proof (induction ts)
  case Nil
  then show ?case by simp
next
  case (Cons t ts)
  then have "is_settled t" by simp
  from settled_cases [OF this] Cons show ?case
    by (auto simp: is_failure_def)
qed

text \<open>A task whose analysis fails settles as that failure, with its message in the errors.\<close>

lemma task_step_errors_prefix: "prefix (errors s) (errors (snd (task_step w userId i item t s)))"
  by (subst task_step_errors) simp

lemma run_batch_analysis_failure:
  assumes j: "j < length batch" and e: "analysis_of w (i + j) = Inl e"
  shows "fst (run_batch w userId i batch sched s) ! j = Settled (Failure e)
       \<and> failure_message (batch ! j)
            \<in> set (errors (snd (run_batch w userId i batch sched s)))"
proof -
  let ?msg = "failure_message (batch ! j)"
  let ?Q = "\<lambda>x :: task list \<times> state. length (fst x) = length batch
      \<and> (fst x ! j = AwaitAnalysis \<or> fst x ! j = Settled (Failure e) \<and> ?msg \<in> set (errors (snd x)))"
  have "?Q (foldl (resume w userId i batch) (replicate (length batch) AwaitAnalysis, s)
          (sched @ completion (length batch)))"
  proof (rule foldl_resume_invariant)
    show "?Q (replicate (length batch) AwaitAnalysis, s)"
      using j by simp
  next
    fix y :: "task list \<times> state" and k
    assume Q: "?Q y"
    show "?Q (resume w userId i batch y k)"
    proof (cases "k < length batch")
      case False
      with Q show ?thesis by (simp add: resume_eq)
    next
      case k: True
      let ?r = "task_step w userId (i + k) (batch ! k) (fst y ! k) (snd y)"
      have r: "resume w userId i batch y k = ((fst y)[k := fst ?r], snd ?r)"
        using k Q by (simp add: resume_eq)
      show ?thesis
      proof (cases "k = j")
        case True
        from Q consider "fst y ! j = AwaitAnalysis"
          | "fst y ! j = Settled (Failure e)" "?msg \<in> set (errors (snd y))"
          by blast
        then show ?thesis
        proof cases
          case 1
          with True e j Q show ?thesis
            unfolding r by (simp add: analysis_of_def)
        next
          case 2
          with True j Q show ?thesis
            unfolding r by simp
        qed
      next
        case False
        have "set (errors (snd y)) \<subseteq> set (errors (snd ?r))"
          using task_step_errors_prefix [of "snd y" w userId "i + k" "batch ! k" "fst y ! k"]
          by (rule set_mono_prefix)
        with False Q show ?thesis
          unfolding r by auto
      qed
    qed
  qed
  then have Q: "?Q (run_batch w userId i batch sched s)"
    by (simp add: run_batch_def)
  have "is_settled (fst (run_batch w userId i batch sched s) ! j)"
    using run_batch_settled [of w userId i batch sched s] j by (simp add: list_all_length)
  with Q show ?thesis
    by (auto simp: is_settled_def)
qed

text \<open>Rows are created only for items whose analysis succeeded.\<close>

lemma run_batch_provenance:
  "messageId ` set (emails (snd (run_batch w userId i batch sched s)))
     \<subseteq> messageId ` set (emails s)
         \<union> {msg_id (gmailMsg (batch ! j)) | j. j < length batch \<and> (\<exists>an. analysis_of w (i + j) = Inr an)}"
proof -
  let ?A = "messageId ` set (emails s)
         \<union> {msg_id (gmailMsg (batch ! j)) | j. j < length batch \<and> (\<exists>an. analysis_of w (i + j) = Inr an)}"
  let ?R = "\<lambda>x :: task list \<times> state. length (fst x) = length batch
      \<and> (\<forall>j < length batch. (\<exists>an l. fst x ! j = AwaitFindUnique an l \<or> fst x ! j = AwaitCreate an l)
            \<longrightarrow> (\<exists>an. analysis_of w (i + j) = Inr an))
      \<and> messageId ` set (emails (snd x)) \<subseteq> ?A"
  have "?R (foldl (resume w userId i batch) (replicate (length batch) AwaitAnalysis, s)
          (sched @ completion (length batch)))"
  proof (rule foldl_resume_invariant)
    show "?R (replicate (length batch) AwaitAnalysis, s)"
      by simp
  next
    fix y :: "task list \<times> state" and k
    assume R: "?R y"
    show "?R (resume w userId i batch y k)"
    proof (cases "k < length batch")
      case False
      with R show ?thesis by (simp add: resume_eq)
    next
      case k: True
      let ?r = "task_step w userId (i + k) (batch ! k) (fst y ! k) (snd y)"
      have r: "resume w userId i batch y k = ((fst y)[k := fst ?r], snd ?r)"
        using k R by (simp add: resume_eq)
      have ok: "(\<exists>an l. fst y ! k = AwaitFindUnique an l \<or> fst y ! k = AwaitCreate an l)
            \<Longrightarrow> \<exists>an. analysis_of w (i + k) = Inr an"
        using R k by blast
      have t: "(\<exists>an l. fst ?r = AwaitFindUnique an l \<or> fst ?r = AwaitCreate an l)
            \<longrightarrow> (\<exists>an. analysis_of w (i + k) = Inr an)"
        using ok
        by (cases "fst y ! k";
            auto simp: analysis_of_def item_failed_def Let_def split: sum.splits option.splits)
      have em: "messageId ` set (emails (snd ?r)) \<subseteq> ?A"
      proof (cases "\<exists>an l. fst y ! k = AwaitCreate an l")
        case True
        then obtain an l where c: "fst y ! k = AwaitCreate an l" by blast
        with ok have "\<exists>an. analysis_of w (i + k) = Inr an" by blast
        with k have "msg_id (gmailMsg (batch ! k)) \<in> ?A" by blast
        moreover have "messageId (new_row (batch ! k) an l) = msg_id (gmailMsg (batch ! k))"
          by (simp add: new_row_def Let_def)
        ultimately show ?thesis
          using R c
          by (auto simp: email_create_def item_failed_def split: sum.splits option.splits if_splits)
      next
        case False
        then have "emails (snd ?r) = emails (snd y)"
          by (cases "fst y ! k"; simp add: Let_def split: sum.splits option.splits)
        with R show ?thesis by simp
      qed
      show ?thesis
        unfolding r using R k t em
        by (auto simp: nth_list_update)
    qed
  qed
  then show ?thesis
    by (simp add: run_batch_def)
qed

subsection \<open>One round of the batch loop\<close>

lemma batch_round_eq:
  "batch_round w userId newEmails i s =
     (let batch = take BATCH_SIZE (drop i newEmails);
          batchNum = i div BATCH_SIZE + 1;
          r = run_batch w userId i batch (schedule w batchNum)
                (s\<lparr>trace := trace s @ [BatchStarted batchNum batch]\<rparr>)
      in (snd r)\<lparr>imported := imported s + length (filter (\<lambda>r. r = Settled Success) (fst r)),
                 skipped := skipped s + length (filter (\<lambda>r. r = Settled Skipped) (fst r)),
                 trace := trace s @ [BatchStarted batchNum batch, BatchSettled batchNum (fst r)]
                            @ (if i + BATCH_SIZE < length newEmails then [Pause BATCH_DELAY_MS] else [])\<rparr>)"
  by (simp add: batch_round_def Let_def case_prod_beta run_batch_frame)

lemma batch_round_trace:
  "\<exists>results. trace (batch_round w userId newEmails i s) =
       trace s @ [BatchStarted (i div BATCH_SIZE + 1) (take BATCH_SIZE (drop i newEmails)),
                  BatchSettled (i div BATCH_SIZE + 1) results]
         @ (if i + BATCH_SIZE < length newEmails then [Pause BATCH_DELAY_MS] else [])
     \<and> length results = length (take BATCH_SIZE (drop i newEmails))
     \<and> list_all is_settled results
     \<and> imported (batch_round w userId newEmails i s)
         = imported s + length (filter (\<lambda>r. r = Settled Success) results)
     \<and> skipped (batch_round w userId newEmails i s)
         = skipped s + length (filter (\<lambda>r. r = Settled Skipped) results)
     \<and> length (errors (batch_round w userId newEmails i s))
         = length (errors s) + length (filter is_failure results)
     \<and> (\<forall>j e. j < length (take BATCH_SIZE (drop i newEmails)) \<and> analysis_of w (i + j) = Inl e \<longrightarrow>
           results ! j = Settled (Failure e)
         \<and> failure_message (take BATCH_SIZE (drop i newEmails) ! j)
              \<in> set (errors (batch_round w userId newEmails i s)))"
proof -
  let ?batch = "take BATCH_SIZE (drop i newEmails)"
  let ?n = "i div BATCH_SIZE + 1"
  let ?s0 = "s\<lparr>trace := trace s @ [BatchStarted ?n ?batch]\<rparr>"
  let ?r = "run_batch w userId i ?batch (schedule w ?n) ?s0"
  let ?s = "batch_round w userId newEmails i s"
  have tr: "trace ?s = trace s @ [BatchStarted ?n ?batch, BatchSettled ?n (fst ?r)]
         @ (if i + BATCH_SIZE < length newEmails then [Pause BATCH_DELAY_MS] else [])"
    and imp: "imported ?s = imported s + length (filter (\<lambda>r. r = Settled Success) (fst ?r))"
    and skp: "skipped ?s = skipped s + length (filter (\<lambda>r. r = Settled Skipped) (fst ?r))"
    and err: "errors ?s = errors (snd ?r)"
    by (simp_all add: batch_round_eq Let_def)
  have len: "length (fst ?r) = length ?batch"
    by (rule run_batch_length)
  have settled: "list_all is_settled (fst ?r)"
    by (rule run_batch_settled)
  have cnt: "length (errors ?s) = length (errors s) + length (filter is_failure (fst ?r))"
    unfolding err by (subst run_batch_errors_count) simp
  have fail: "\<forall>j e. j < length ?batch \<and> analysis_of w (i + j) = Inl e \<longrightarrow>
           fst ?r ! j = Settled (Failure e) \<and> failure_message (?batch ! j) \<in> set (errors ?s)"
    unfolding err using run_batch_analysis_failure [of _ ?batch w i] by blast
  from tr len settled imp skp cnt fail show ?thesis
    by blast
qed

lemma batch_round_emailInsights [simp]:
  "emailInsights (batch_round w userId newEmails i s) = emailInsights s"
  by (simp add: batch_round_eq Let_def run_batch_frame)


lemma batch_round_provenance:
  "messageId ` set (emails (batch_round w userId newEmails i s))
     \<subseteq> messageId ` set (emails s)
         \<union> {msg_id (gmailMsg (newEmails ! p)) | p. i \<le> p \<and> p < length newEmails
               \<and> (\<exists>an. analysis_of w p = Inr an)}"
proof -
  let ?batch = "take BATCH_SIZE (drop i newEmails)"
  let ?s = "s\<lparr>trace := trace s @ [BatchStarted (i div BATCH_SIZE + 1) ?batch]\<rparr>"
  have "{msg_id (gmailMsg (?batch ! j)) | j. j < length ?batch \<and> (\<exists>an. analysis_of w (i + j) = Inr an)}
      \<subseteq> {msg_id (gmailMsg (newEmails ! p)) | p. i \<le> p \<and> p < length newEmails
               \<and> (\<exists>an. analysis_of w p = Inr an)}"
  proof
    fix x assume "x \<in> {msg_id (gmailMsg (?batch ! j)) | j. j < length ?batch \<and> (\<exists>an. analysis_of w (i + j) = Inr an)}"
    then obtain j where j: "x = msg_id (gmailMsg (?batch ! j))" "j < length ?batch"
      "\<exists>an. analysis_of w (i + j) = Inr an" by blast
    have "j < length newEmails - i"
      using j(2) by simp
    then have "i \<le> length newEmails" "i + j < length newEmails"
      by arith+
    then have "?batch ! j = newEmails ! (i + j)" "i + j < length newEmails"
      using j(2) by simp_all
    with j show "x \<in> {msg_id (gmailMsg (newEmails ! p)) | p. i \<le> p \<and> p < length newEmails
               \<and> (\<exists>an. analysis_of w p = Inr an)}"
      by (intro CollectI exI [of _ "i + j"]) simp
  qed
  with run_batch_provenance [of w userId i ?batch "schedule w (i div BATCH_SIZE + 1)" ?s]
  show ?thesis
    by (simp add: batch_round_eq Let_def) blast
qed

lemma batch_round_errors_prefix: "prefix (errors s) (errors (batch_round w userId newEmails i s))"
  using run_batch_errors_prefix [of "s\<lparr>trace := trace s @ [BatchStarted (i div BATCH_SIZE + 1) (take BATCH_SIZE (drop i newEmails))]\<rparr>"]
  by (simp add: batch_round_eq Let_def)

lemma batch_round_accounting:
  "imported (batch_round w userId newEmails i s) + skipped (batch_round w userId newEmails i s)
     + length (errors (batch_round w userId newEmails i s))
   = imported s + skipped s + length (errors s) + length (take BATCH_SIZE (drop i newEmails))"
proof -
  from batch_round_trace [of w userId newEmails i s] obtain results where
    r: "length results = length (take BATCH_SIZE (drop i newEmails))"
       "list_all is_settled results"
       "imported (batch_round w userId newEmails i s)
         = imported s + length (filter (\<lambda>r. r = Settled Success) results)"
       "skipped (batch_round w userId newEmails i s)
         = skipped s + length (filter (\<lambda>r. r = Settled Skipped) results)"
       "length (errors (batch_round w userId newEmails i s))
         = length (errors s) + length (filter is_failure results)"
    by blast
  from settled_partition [OF r(2)] r show ?thesis by simp
qed

subsection \<open>The loop\<close>

declare batch_loop.simps [simp del]

lemma batch_loop_done: "\<not> i < length newEmails \<Longrightarrow> batch_loop w userId newEmails i s = s"
  by (subst batch_loop.simps) simp

lemma batch_loop_step:
  "i < length newEmails \<Longrightarrow>
     batch_loop w userId newEmails i s
       = batch_loop w userId newEmails (i + BATCH_SIZE) (batch_round w userId newEmails i s)"
  by (subst batch_loop.simps) simp

lemma batch_loop_emailInsights [simp]:
  "emailInsights (batch_loop w userId newEmails i s) = emailInsights s"
  by (induction w userId newEmails i s rule: batch_loop.induct)
    (subst batch_loop.simps, simp)


lemma batch_loop_errors_prefix: "prefix (errors s) (errors (batch_loop w userId newEmails i s))"
proof (induction w userId newEmails i s rule: batch_loop.induct)
  case (1 w userId newEmails i s)
  show ?case
  proof (cases "i < length newEmails")
    case True
    with 1 batch_round_errors_prefix [of s w userId newEmails i] show ?thesis
      by (auto simp: batch_loop_step intro: prefix_order.trans)
  next
    case False
    then show ?thesis by (simp add: batch_loop_done)
  qed
qed

lemma batch_loop_accounting:
  "imported (batch_loop w userId newEmails i s) + skipped (batch_loop w userId newEmails i s)
     + length (errors (batch_loop w userId newEmails i s))
   = imported s + skipped s + length (errors s) + (length newEmails - i)"
proof (induction w userId newEmails i s rule: batch_loop.induct)
  case (1 w userId newEmails i s)
  show ?case
  proof (cases "i < length newEmails")
    case True
    have len: "length (take BATCH_SIZE (drop i newEmails)) + (length newEmails - (i + BATCH_SIZE))
                 = length newEmails - i"
      by (simp add: BATCH_SIZE_def min_def)
    let ?s = "batch_round w userId newEmails i s"
    let ?t = "batch_loop w userId newEmails (i + BATCH_SIZE) ?s"
    have "imported ?t + skipped ?t + length (errors ?t)
            = imported ?s + skipped ?s + length (errors ?s) + (length newEmails - (i + BATCH_SIZE))"
      using 1 True by simp
    with batch_round_accounting [of w userId newEmails i s] len
    have "imported ?t + skipped ?t + length (errors ?t)
            = imported s + skipped s + length (errors s) + (length newEmails - i)"
      by linarith
    then show ?thesis
      using True by (simp add: batch_loop_step)
  next
    case False
    then show ?thesis by (simp add: batch_loop_done)
  qed
qed


lemma batch_loop_provenance:
  "messageId ` set (emails (batch_loop w userId newEmails i s))
     \<subseteq> messageId ` set (emails s)
         \<union> {msg_id (gmailMsg (newEmails ! p)) | p. i \<le> p \<and> p < length newEmails
               \<and> (\<exists>an. analysis_of w p = Inr an)}"
proof (induction w userId newEmails i s rule: batch_loop.induct)
  case (1 w userId newEmails i s)
  show ?case
  proof (cases "i < length newEmails")
    case True
    let ?s = "batch_round w userId newEmails i s"
    have "messageId ` set (emails (batch_loop w userId newEmails (i + BATCH_SIZE) ?s))
       \<subseteq> messageId ` set (emails ?s)
         \<union> {msg_id (gmailMsg (newEmails ! p)) | p. i + BATCH_SIZE \<le> p \<and> p < length newEmails
               \<and> (\<exists>an. analysis_of w p = Inr an)}"
      using 1 True by simp
    also have "\<dots> \<subseteq> messageId ` set (emails s)
         \<union> {msg_id (gmailMsg (newEmails ! p)) | p. i \<le> p \<and> p < length newEmails
               \<and> (\<exists>an. analysis_of w p = Inr an)}"
      using batch_round_provenance [of w userId newEmails i s] by auto
    finally show ?thesis
      using True by (simp add: batch_loop_step)
  next
    case False
    then show ?thesis by (simp add: batch_loop_done)
  qed
qed

lemma started_batches_append [simp]:
  "started_batches (evs @ evs') = started_batches evs @ started_batches evs'"
  by (induction evs rule: started_batches.induct) simp_all

lemma pauses_append [simp]: "pauses (evs @ evs') = pauses evs @ pauses evs'"
  by (induction evs rule: pauses.induct) simp_all

lemma item_results_append [simp]:
  "item_results (evs @ evs') = item_results evs @ item_results evs'"
  by (induction evs rule: item_results.induct) simp_all

lemma batch_loop_trace:
  "\<exists>evs. loop_trace w newEmails i s (batch_loop w userId newEmails i s) evs"
proof (induction w userId newEmails i s rule: batch_loop.induct)
  case (1 w userId newEmails i s)
  show ?case
  proof (cases "i < length newEmails")
    case False
    then show ?thesis
      by (intro exI [of _ "[]"]) (auto simp: batch_loop_done loop_trace_def)
  next
    case lt: True
    let ?batch = "take BATCH_SIZE (drop i newEmails)"
    let ?n = "i div BATCH_SIZE + 1"
    let ?s = "batch_round w userId newEmails i s"
    from batch_round_trace [of w userId newEmails i s] obtain results where
      tr: "trace ?s = trace s @ [BatchStarted ?n ?batch, BatchSettled ?n results]
             @ (if i + BATCH_SIZE < length newEmails then [Pause BATCH_DELAY_MS] else [])"
      and len: "length results = length ?batch"
      and settled: "list_all is_settled results"
      and imp: "imported ?s = imported s + length (filter (\<lambda>r. r = Settled Success) results)"
      and skp: "skipped ?s = skipped s + length (filter (\<lambda>r. r = Settled Skipped) results)"
      and err: "length (errors ?s) = length (errors s) + length (filter is_failure results)"
      and fail: "\<And>j e. j < length ?batch \<Longrightarrow> analysis_of w (i + j) = Inl e \<Longrightarrow>
           results ! j = Settled (Failure e)
         \<and> failure_message (?batch ! j) \<in> set (errors ?s)"
      by blast
    have fail': "results ! (p - i) = Settled (Failure e)
         \<and> failure_message (newEmails ! p) \<in> set (errors ?s)"
      if "i \<le> p" "p < length newEmails" "p < i + BATCH_SIZE" "analysis_of w p = Inl e" for p e
    proof -
      have a: "p - i < length newEmails - i" "p - i < BATCH_SIZE" "i + (p - i) = p"
        "i \<le> length newEmails"
        using that by arith+
      then have "p - i < length ?batch" "?batch ! (p - i) = newEmails ! p" "i + (p - i) = p"
        by simp_all
      with fail [of "p - i" e] that show ?thesis by simp
    qed
    have batch_ne: "?batch \<noteq> []" and batch_le: "length ?batch \<le> BATCH_SIZE"
      using lt by (simp_all add: BATCH_SIZE_def)
    have split: "?batch @ drop (i + BATCH_SIZE) newEmails = drop i newEmails"
      by (metis add.commute append_take_drop_id drop_drop)
    show ?thesis
    proof (cases "i + BATCH_SIZE < length newEmails")
      case more: False
      then have loop: "batch_loop w userId newEmails i s = ?s"
        using lt by (simp add: batch_loop_step batch_loop_done)
      have rest: "drop (i + BATCH_SIZE) newEmails = []"
        using more by simp
      have cnt: "(length newEmails - i + 3) div 4 = 1"
        using more lt by (simp add: BATCH_SIZE_def)
      have lenb: "length ?batch = length newEmails - i"
        using more by (simp add: BATCH_SIZE_def)
      have "loop_trace w newEmails i s ?s [BatchStarted ?n ?batch, BatchSettled ?n results]"
        unfolding loop_trace_def
      proof (intro conjI allI impI)
        fix p e assume "i \<le> p \<and> p < length newEmails \<and> analysis_of w p = Inl e"
        with fail' [of p e] more
        show "item_results [BatchStarted ?n ?batch, BatchSettled ?n results] ! (p - i) = Settled (Failure e)"
          and "failure_message (newEmails ! p) \<in> set (errors ?s)"
          by simp_all
      qed (use tr len settled imp skp err more batch_ne batch_le split rest cnt lenb in simp_all)
      with loop show ?thesis by auto
    next
      case more: True
      from "1.IH" [OF lt] obtain evs where
        ih: "loop_trace w newEmails (i + BATCH_SIZE) ?s
               (batch_loop w userId newEmails (i + BATCH_SIZE) ?s) evs"
        by blast
      then obtain m b rest where evs: "evs = BatchStarted m b # rest"
        using more unfolding loop_trace_def by blast
      let ?evs = "[BatchStarted ?n ?batch, BatchSettled ?n results, Pause BATCH_DELAY_MS] @ evs"
      have loop: "batch_loop w userId newEmails i s
                    = batch_loop w userId newEmails (i + BATCH_SIZE) ?s"
        using lt by (simp add: batch_loop_step)
      have cnt: "(length newEmails - i + 3) div 4 = Suc ((length newEmails - (i + BATCH_SIZE) + 3) div 4)"
        and cnt1: "(length newEmails - (i + BATCH_SIZE) + 3) div 4
                     = Suc ((length newEmails - (i + BATCH_SIZE) + 3) div 4 - 1)"
        using more by (simp_all add: BATCH_SIZE_def)
      have lenb: "length ?batch + (length newEmails - (i + BATCH_SIZE)) = length newEmails - i"
        using more by (simp add: BATCH_SIZE_def)
      have seq: "sequenced ?evs"
        using ih len settled unfolding evs loop_trace_def by simp
      have "loop_trace w newEmails i s (batch_loop w userId newEmails (i + BATCH_SIZE) ?s) ?evs"
        unfolding loop_trace_def
      proof (intro conjI)
        show "trace (batch_loop w userId newEmails (i + BATCH_SIZE) ?s) = trace s @ ?evs"
          using ih tr more unfolding loop_trace_def by simp
        show "concat (started_batches ?evs) = drop i newEmails"
          using ih split unfolding loop_trace_def by simp
        show "\<forall>b\<in>set (started_batches ?evs). b \<noteq> [] \<and> length b \<le> BATCH_SIZE"
          using ih batch_ne batch_le unfolding loop_trace_def by simp
        show "length (started_batches ?evs) = (length newEmails - i + 3) div 4"
          using ih cnt unfolding loop_trace_def by simp
        show "pauses ?evs = replicate ((length newEmails - i + 3) div 4 - 1) BATCH_DELAY_MS"
        proof -
          define k where "k = (length newEmails - (i + BATCH_SIZE) + 3) div 4 - 1"
          have "pauses evs = replicate k BATCH_DELAY_MS"
            using ih unfolding loop_trace_def k_def by blast
          then have "pauses ?evs = replicate (Suc k) BATCH_DELAY_MS"
            by simp
          moreover have "(length newEmails - i + 3) div 4 - 1 = Suc k"
            using cnt cnt1 unfolding k_def by linarith
          ultimately show ?thesis by (simp only:)
        qed
        show "sequenced ?evs" by (rule seq)
        show "i < length newEmails \<longrightarrow> (\<exists>n b rest. ?evs = BatchStarted n b # rest)"
          by simp
        show "length (item_results ?evs) = length newEmails - i"
          using ih len lenb unfolding loop_trace_def by simp
        show "list_all is_settled (item_results ?evs)"
          using ih settled unfolding loop_trace_def by simp
        show "imported (batch_loop w userId newEmails (i + BATCH_SIZE) ?s)
                = imported s + length (filter (\<lambda>r. r = Settled Success) (item_results ?evs))"
          using ih imp unfolding loop_trace_def by simp
        show "skipped (batch_loop w userId newEmails (i + BATCH_SIZE) ?s)
                = skipped s + length (filter (\<lambda>r. r = Settled Skipped) (item_results ?evs))"
          using ih skp unfolding loop_trace_def by simp
        show "length (errors (batch_loop w userId newEmails (i + BATCH_SIZE) ?s))
                = length (errors s) + length (filter is_failure (item_results ?evs))"
          using ih err unfolding loop_trace_def by simp
        show "\<forall>p e. i \<le> p \<and> p < length newEmails \<and> analysis_of w p = Inl e \<longrightarrow>
                item_results ?evs ! (p - i) = Settled (Failure e)
              \<and> failure_message (newEmails ! p)
                   \<in> set (errors (batch_loop w userId newEmails (i + BATCH_SIZE) ?s))"
        proof (intro allI impI)
          fix p e assume p: "i \<le> p \<and> p < length newEmails \<and> analysis_of w p = Inl e"
          have len4: "length results = BATCH_SIZE"
            using len more by (simp add: BATCH_SIZE_def)
          have sub: "set (errors ?s) \<subseteq> set (errors (batch_loop w userId newEmails (i + BATCH_SIZE) ?s))"
            by (rule set_mono_prefix) (rule batch_loop_errors_prefix)
          show "item_results ?evs ! (p - i) = Settled (Failure e)
              \<and> failure_message (newEmails ! p)
                   \<in> set (errors (batch_loop w userId newEmails (i + BATCH_SIZE) ?s))"
          proof (cases "p < i + BATCH_SIZE")
            case True
            with fail' [of p e] p len4 sub show ?thesis
              by (auto simp: nth_append)
          next
            case False
            then have "p - i = BATCH_SIZE + (p - (i + BATCH_SIZE))" by simp
            moreover from ih False p have "item_results evs ! (p - (i + BATCH_SIZE)) = Settled (Failure e)
              \<and> failure_message (newEmails ! p)
                   \<in> set (errors (batch_loop w userId newEmails (i + BATCH_SIZE) ?s))"
              unfolding loop_trace_def by simp
            ultimately show ?thesis
              using len4 by (simp add: nth_append)
          qed
        qed
      qed
      with loop show ?thesis by auto
    qed
  qed
qed

lemma ceiling_batches: "\<lceil>real M / real BATCH_SIZE\<rceil> = int ((M + 3) div 4)"
proof -
  have "\<lceil>real M / real BATCH_SIZE\<rceil> = \<lceil>(of_int (int M) :: real) / of_int 4\<rceil>"
    by (simp add: BATCH_SIZE_def)
  also have "\<dots> = - (- int M div 4)"
    by (rule ceiling_divide_eq_div)
  also have "\<dots> = int ((M + 3) div 4)"
    by (simp add: zdiv_int)
  finally show ?thesis .
qed

subsection \<open>The filter\<close>

lemma findUnique_None: "findUnique rows (msg_id (gmailMsg item)) = None \<longleftrightarrow> \<not> stored rows item"
  by (force simp: findUnique_def find_None_iff stored_def)

lemma filter_existing_Inr:
  "filter_existing w rows k items sk new = Inr (sk', new') \<Longrightarrow>
     sk' = sk + length (filter (stored rows) items) \<and> new' = new @ new_items rows items"
proof (induction items arbitrary: k sk new)
  case Nil
  then show ?case by (simp add: new_items_def)
next
  case (Cons item items)
  show ?case
  proof (cases "stored rows item")
    case True
    then obtain existing where "findUnique rows (msg_id (gmailMsg item)) = Some existing"
      using findUnique_None [of rows item] by (cases "findUnique rows (msg_id (gmailMsg item))") auto
    with Cons.prems have "filter_existing w rows (k + 1) items (sk + 1) new = Inr (sk', new')"
      by (simp split: option.splits)
    from Cons.IH [OF this] True show ?thesis by (simp add: new_items_def)
  next
    case False
    then have "findUnique rows (msg_id (gmailMsg item)) = None"
      by (simp add: findUnique_None)
    with Cons.prems have "filter_existing w rows (k + 1) items sk (new @ [item]) = Inr (sk', new')"
      by (simp split: option.splits)
    from Cons.IH [OF this] False show ?thesis by (simp add: new_items_def)
  qed
qed

lemma filter_existing_ok:
  "\<forall>j < length items. filter_findUnique_error w (k + j) = None \<Longrightarrow>
     filter_existing w rows k items sk new
       = Inr (sk + length (filter (stored rows) items), new @ new_items rows items)"
proof (induction items arbitrary: k sk new)
  case Nil
  then show ?case by (simp add: new_items_def)
next
  case (Cons item items)
  from Cons.prems have k: "filter_findUnique_error w k = None"
    by (metis add.right_neutral length_greater_0_conv list.distinct(1))
  have rest: "\<forall>j < length items. filter_findUnique_error w (k + 1 + j) = None"
  proof (intro allI impI)
    fix j assume "j < length items"
    then have "Suc j < length (item # items)" by simp
    with Cons.prems have "filter_findUnique_error w (k + Suc j) = None" by blast
    then show "filter_findUnique_error w (k + 1 + j) = None" by simp
  qed
  show ?case
  proof (cases "stored rows item")
    case True
    then obtain existing where "findUnique rows (msg_id (gmailMsg item)) = Some existing"
      using findUnique_None [of rows item] by (cases "findUnique rows (msg_id (gmailMsg item))") auto
    with k Cons.IH [OF rest] True show ?thesis by (simp add: new_items_def)
  next
    case False
    then have "findUnique rows (msg_id (gmailMsg item)) = None"
      by (simp add: findUnique_None)
    with k Cons.IH [OF rest] False show ?thesis by (simp add: new_items_def)
  qed
qed

subsection \<open>The run after the fetch\<close>

lemma failed_status [simp]: "failed error \<noteq> Response 200 b" "status (failed error) = 500"
  by (simp_all add: failed_def)

lemma after_loop_emailInsights [simp]:
  "emailInsights (after_loop w userId allGmailMessages s) = emailInsights s"
  by (simp add: after_loop_def)

lemma import_run_cases:
  "import_run w userId allGmailMessages s =
     (case filter_existing w (emails s) 0 allGmailMessages 0 [] of
        Inl error \<Rightarrow> (failed error, s\<lparr>imported := 0, skipped := 0, errors := [], trace := []\<rparr>)
      | Inr x \<Rightarrow>
          (case emailInsight_upsert_error w of
             Some error \<Rightarrow> (failed error, after_loop w userId allGmailMessages s)
           | None \<Rightarrow>
               (case (if imported (after_loop w userId allGmailMessages s) > 0
                      then statistics_error w else None) of
                  Some error \<Rightarrow>
                    (failed error,
                     (after_loop w userId allGmailMessages s)
                       \<lparr>emailInsights := emailInsight_upsert userId (today w)
                          (imported (after_loop w userId allGmailMessages s)) (emailInsights s)\<rparr>)
                | None \<Rightarrow>
                    (Response 200
                       (SummaryBody (imported (after_loop w userId allGmailMessages s))
                          (skipped (after_loop w userId allGmailMessages s))
                          (errors (after_loop w userId allGmailMessages s))),
                     (after_loop w userId allGmailMessages s)
                       \<lparr>emailInsights := emailInsight_upsert userId (today w)
                          (imported (after_loop w userId allGmailMessages s)) (emailInsights s)\<rparr>))))"
proof (cases "filter_existing w (emails s) 0 allGmailMessages 0 []")
  case (Inl error)
  then show ?thesis by (simp add: import_run_def)
next
  case (Inr x)
  obtain sk new where x: "x = (sk, new)" by (cases x)
  from filter_existing_Inr [OF Inr [unfolded x]]
  have "sk = length (filter (stored (emails s)) allGmailMessages)"
    "new = new_items (emails s) allGmailMessages" by simp_all
  then have "batch_loop w userId new 0
      (s\<lparr>imported := 0, skipped := 0, errors := [], trace := [], skipped := sk\<rparr>)
      = after_loop w userId allGmailMessages s"
    by (simp add: after_loop_def)
  with Inr x show ?thesis
    by (simp add: import_run_def Let_def split: option.splits)
qed

lemma import_run_summary:
  assumes "fst (import_run w userId allGmailMessages s) = Response 200 (SummaryBody imp skp errs)"
  shows "imp = imported (after_loop w userId allGmailMessages s)"
    and "skp = skipped (after_loop w userId allGmailMessages s)"
    and "errs = errors (after_loop w userId allGmailMessages s)"
    and "snd (import_run w userId allGmailMessages s)
           = (after_loop w userId allGmailMessages s)
               \<lparr>emailInsights := emailInsight_upsert userId (today w) imp (emailInsights s)\<rparr>"
  using assms unfolding import_run_cases
  by (auto split: sum.splits option.splits if_splits)

lemma import_run_ok:
  assumes "\<forall>k < length allGmailMessages. filter_findUnique_error w k = None"
    and "emailInsight_upsert_error w = None" and "statistics_error w = None"
  shows "import_run w userId allGmailMessages s =
           (Response 200
              (SummaryBody (imported (after_loop w userId allGmailMessages s))
                 (skipped (after_loop w userId allGmailMessages s))
                 (errors (after_loop w userId allGmailMessages s))),
            (after_loop w userId allGmailMessages s)
              \<lparr>emailInsights := emailInsight_upsert userId (today w)
                 (imported (after_loop w userId allGmailMessages s)) (emailInsights s)\<rparr>)"
proof -
  have "filter_existing w (emails s) 0 allGmailMessages 0 []
      = Inr (0 + length (filter (stored (emails s)) allGmailMessages),
             [] @ new_items (emails s) allGmailMessages)"
    using assms(1) by (intro filter_existing_ok) simp
  with assms(2,3) show ?thesis
    unfolding import_run_cases by simp
qed

lemma after_loop_trace:
  "\<exists>evs. loop_trace w (new_items (emails s) allGmailMessages) 0
       (s\<lparr>imported := 0, errors := [], trace := [],
          skipped := length (filter (stored (emails s)) allGmailMessages)\<rparr>)
       (after_loop w userId allGmailMessages s) evs"
  unfolding after_loop_def by (rule batch_loop_trace)






subsection \<open>The claims about the route\<close>

text \<open>
  Claim C3, amended. The batch loop cuts the list of \<open>M\<close> new items into consecutive
  batches of at most \<open>BATCH_SIZE = 4\<close> items, in order, and runs
  \<open>ceil(M / 4)\<close> batches; every batch is settled, all its items, before the next one
  is started; between two batches there is one pause of \<open>BATCH_DELAY_MS\<close> and after the
  last there is none, which makes \<open>ceil(M / 4) - 1\<close> pauses for \<open>M \<ge> 1\<close> and no pause
  for \<open>M = 0\<close>.
\<close>

theorem batch_loop_batches_and_pauses:
  "\<exists>evs. trace (batch_loop w userId newEmails 0 s) = trace s @ evs
     \<and> concat (started_batches evs) = newEmails
     \<and> (\<forall>batch \<in> set (started_batches evs). batch \<noteq> [] \<and> length batch \<le> BATCH_SIZE)
     \<and> length (started_batches evs) = nat \<lceil>real (length newEmails) / real BATCH_SIZE\<rceil>
     \<and> sequenced evs
     \<and> (\<forall>ms \<in> set (pauses evs). ms = BATCH_DELAY_MS)
     \<and> (newEmails \<noteq> [] \<longrightarrow>
           int (length (pauses evs)) = \<lceil>real (length newEmails) / real BATCH_SIZE\<rceil> - 1)
     \<and> (newEmails = [] \<longrightarrow> pauses evs = [])"
proof -
  from batch_loop_trace [of w newEmails 0 s userId] obtain evs where
    lt: "loop_trace w newEmails 0 s (batch_loop w userId newEmails 0 s) evs" by blast
  define n where "n = (length newEmails + 3) div 4"
  have ceil: "\<lceil>real (length newEmails) / real BATCH_SIZE\<rceil> = int n"
    by (simp add: ceiling_batches n_def)
  have n: "nat \<lceil>real (length newEmails) / real BATCH_SIZE\<rceil> = n"
    unfolding ceil by simp
  have p: "pauses evs = replicate (n - 1) BATCH_DELAY_MS"
    using lt by (simp add: loop_trace_def n_def)
  have "n \<ge> 1" if "newEmails \<noteq> []"
    using that unfolding n_def by (cases newEmails) simp_all
  then have "newEmails \<noteq> [] \<longrightarrow> int (length (pauses evs)) = int n - 1"
    unfolding p by auto
  moreover have "newEmails = [] \<longrightarrow> pauses evs = []"
    unfolding p n_def by simp
  moreover have "\<forall>ms \<in> set (pauses evs). ms = BATCH_DELAY_MS"
    unfolding p by simp
  ultimately show ?thesis
    using lt unfolding loop_trace_def n ceil by (intro exI [of _ evs]) (simp add: n_def)
qed


theorem batch_loop_batches_and_pauses_witness:
  "\<exists>evs. trace (batch_loop (example_world []) ''u1'' (replicate 9 (example_item ''m'' ''Hi'')) 0 empty_state)
           = trace empty_state @ evs
     \<and> concat (started_batches evs) = replicate 9 (example_item ''m'' ''Hi'')
     \<and> (\<forall>batch \<in> set (started_batches evs). batch \<noteq> [] \<and> length batch \<le> BATCH_SIZE)
     \<and> length (started_batches evs) = 3
     \<and> sequenced evs
     \<and> (\<forall>ms \<in> set (pauses evs). ms = BATCH_DELAY_MS)
     \<and> length (pauses evs) = 2"
  using batch_loop_batches_and_pauses [of "example_world []" "''u1''" "replicate 9 (example_item ''m'' ''Hi'')" empty_state]
  by (simp add: BATCH_SIZE_def)

text \<open>
  As claim C3 is worded, the number of pauses is \<open>ceil(M/B) - 1\<close> for every \<open>M\<close>; for
  the empty list that is \<open>-1\<close>, and the loop makes no pause.
\<close>

theorem batch_loop_pauses_counterexample:
  "int (length (pauses (trace (batch_loop (example_world []) ''u1'' [] 0 empty_state))))
     \<noteq> \<lceil>real (length ([] :: fetched_item list)) / real BATCH_SIZE\<rceil> - 1"
  by (simp add: batch_loop_done empty_state_def)

lemma example_fetch:
  "fetch_phase example_failing_world
     = Inr (Some (''u1'', [], [example_item ''a'' ''A'', example_item ''b'' ''B'', example_item ''c'' ''C'']))"
  by code_simp

lemma example_response:
  "fst (POST example_failing_world example_state)
     = Response 200 (SummaryBody 1 1 [''Failed to process email: C''])"
  by code_simp

text \<open>
  Claim C10. In the summary of a run, \<open>imported + skipped + length errors\<close> is the number
  of fetched messages: the stored ones are counted as skipped by the filter, and each new
  one has one settled task, which is counted once, as imported, as skipped or by its
  error message.
\<close>

theorem POST_counts_every_fetched_message:
  assumes "fetch_phase w = Inr (Some (userId, categories, allGmailMessages))"
    and "fst (POST w s) = Response 200 (SummaryBody imp skp errs)"
  shows "imp + skp + length errs = length allGmailMessages
       \<and> (\<exists>results. length results = length (new_items (emails s) allGmailMessages)
             \<and> list_all is_settled results
             \<and> imp = length (filter (\<lambda>r. r = Settled Success) results)
             \<and> skp = length (filter (stored (emails s)) allGmailMessages)
                       + length (filter (\<lambda>r. r = Settled Skipped) results)
             \<and> length errs = length (filter is_failure results))"
proof -
  have run: "POST w s = import_run w userId allGmailMessages s"
    using assms(1) by (simp add: POST_def)
  let ?s' = "after_loop w userId allGmailMessages s"
  from import_run_summary [OF assms(2) [unfolded run]]
  have v: "imp = imported ?s'" "skp = skipped ?s'" "errs = errors ?s'"
    by simp_all
  from after_loop_trace [of w s allGmailMessages userId] obtain evs where
    "loop_trace w (new_items (emails s) allGmailMessages) 0
       (s\<lparr>imported := 0, errors := [], trace := [],
          skipped := length (filter (stored (emails s)) allGmailMessages)\<rparr>) ?s' evs"
    by blast
  then have r: "length (item_results evs) = length (new_items (emails s) allGmailMessages)"
    "list_all is_settled (item_results evs)"
    "imp = length (filter (\<lambda>r. r = Settled Success) (item_results evs))"
    "skp = length (filter (stored (emails s)) allGmailMessages)
             + length (filter (\<lambda>r. r = Settled Skipped) (item_results evs))"
    "length errs = length (filter is_failure (item_results evs))"
    unfolding loop_trace_def v by simp_all
  have "length (filter (stored (emails s)) allGmailMessages)
          + length (new_items (emails s) allGmailMessages) = length allGmailMessages"
    unfolding new_items_def by (rule sum_length_filter_compl)
  with settled_partition [OF r(2)] r have "imp + skp + length errs = length allGmailMessages"
    by linarith
  with r show ?thesis by blast
qed

theorem POST_counts_every_fetched_message_witness:
  "fetch_phase example_failing_world
     = Inr (Some (''u1'', [], [example_item ''a'' ''A'', example_item ''b'' ''B'', example_item ''c'' ''C'']))
   \<and> fst (POST example_failing_world example_state)
       = Response 200 (SummaryBody 1 1 [''Failed to process email: C''])
   \<and> (1::nat) + 1 + length [''Failed to process email: C'']
       = length [example_item ''a'' ''A'', example_item ''b'' ''B'', example_item ''c'' ''C'']"
  using POST_counts_every_fetched_message [OF example_fetch example_response] example_fetch example_response
  by simp








lemma retryWithBackoff_non_retriable:
  assumes "k < maxRetries"
    and "\<forall>j<k. \<exists>e'. fn j = Inl e' \<and> is429 e'"
    and "fn k = Inl e" and "\<not> is429 e"
  shows "fst (retryWithBackoff fn random maxRetries baseDelay) = Inl e"
proof -
  have "retryWithBackoff fn random maxRetries baseDelay =
        retry_loop fn random maxRetries baseDelay k
          \<lparr>calls = k, sleeps = backoff_delays random baseDelay 0 k\<rparr>"
    unfolding retryWithBackoff_def
    using assms(1,2) by (subst retry_loop_skip [where k = k]) auto
  also have "fst \<dots> = Inl e"
    using assms(1,3,4) by (subst retry_loop.simps) simp
  finally show ?thesis .
qed

text \<open>
  Claim C5, amended. Let the analysis of a new item throw an error that is not
  rate-limited, after any number of rate-limited attempts below the bound. Then the item's
  task settles as that failure, it is counted neither in \<open>imported\<close> nor in
  \<open>skipped\<close>, its message \<open>Failed to process email: \<close> with the subject is in
  \<open>errors\<close>, no row is stored under its identifier unless another new item has the same
  identifier, and the caller gets the summary, provided the lookups of the filter before
  the loop, and the upsert of the daily insight and the statistics reads after it, do not
  fail.
\<close>

theorem POST_item_failure_is_isolated:
  assumes "fetch_phase w = Inr (Some (userId, categories, allGmailMessages))"
    and "\<forall>j < length allGmailMessages. filter_findUnique_error w j = None"
    and "i < length (new_items (emails s) allGmailMessages)"
    and "k < 5"
    and "\<forall>j<k. \<exists>e'. analyzeEmailComplete w i j = Inl e' \<and> is429 e'"
    and "analyzeEmailComplete w i k = Inl e" and "\<not> is429 e"
    and "emailInsight_upsert_error w = None" and "statistics_error w = None"
  shows "\<exists>imp skp errs. fst (POST w s) = Response 200 (SummaryBody imp skp errs)
     \<and> (''Failed to process email: '' @ subject (gmailMsg (new_items (emails s) allGmailMessages ! i)))
          \<in> set errs
     \<and> item_results (trace (snd (POST w s))) ! i = Settled (Failure e)
     \<and> imp = length (filter (\<lambda>r. r = Settled Success) (item_results (trace (snd (POST w s)))))
     \<and> skp = length (filter (stored (emails s)) allGmailMessages)
              + length (filter (\<lambda>r. r = Settled Skipped) (item_results (trace (snd (POST w s)))))
     \<and> ((\<forall>p < length (new_items (emails s) allGmailMessages). p \<noteq> i \<longrightarrow>
            msg_id (gmailMsg (new_items (emails s) allGmailMessages ! p))
              \<noteq> msg_id (gmailMsg (new_items (emails s) allGmailMessages ! i)))
          \<longrightarrow> msg_id (gmailMsg (new_items (emails s) allGmailMessages ! i))
                \<notin> messageId ` set (emails (snd (POST w s))))"
proof -
  let ?new = "new_items (emails s) allGmailMessages"
  let ?s' = "after_loop w userId allGmailMessages s"
  have an: "analysis_of w i = Inl e"
    unfolding analysis_of_def using assms(4-7) by (rule retryWithBackoff_non_retriable)
  have run: "POST w s = import_run w userId allGmailMessages s"
    using assms(1) by (simp add: POST_def)
  note ok = import_run_ok [OF assms(2) assms(8) assms(9), of userId s]
  have resp: "fst (POST w s) = Response 200 (SummaryBody (imported ?s') (skipped ?s') (errors ?s'))"
    and tr: "trace (snd (POST w s)) = trace ?s'"
    and em: "emails (snd (POST w s)) = emails ?s'"
    unfolding run ok by simp_all
  from after_loop_trace [of w s allGmailMessages userId] obtain evs where
    lt: "loop_trace w ?new 0
       (s\<lparr>imported := 0, errors := [], trace := [],
          skipped := length (filter (stored (emails s)) allGmailMessages)\<rparr>) ?s' evs"
    by blast
  then have r: "trace ?s' = evs"
    "imported ?s' = length (filter (\<lambda>r. r = Settled Success) (item_results evs))"
    "skipped ?s' = length (filter (stored (emails s)) allGmailMessages)
             + length (filter (\<lambda>r. r = Settled Skipped) (item_results evs))"
    unfolding loop_trace_def by simp_all
  from lt assms(3) an have f: "item_results evs ! (i - 0) = Settled (Failure e)
      \<and> failure_message (?new ! i) \<in> set (errors ?s')"
    unfolding loop_trace_def by blast
  have prov: "msg_id (gmailMsg (?new ! i)) \<notin> messageId ` set (emails ?s')"
    if uniq: "\<forall>p < length ?new. p \<noteq> i \<longrightarrow>
                msg_id (gmailMsg (?new ! p)) \<noteq> msg_id (gmailMsg (?new ! i))"
  proof
    assume "msg_id (gmailMsg (?new ! i)) \<in> messageId ` set (emails ?s')"
    with batch_loop_provenance [of w userId ?new 0
        "s\<lparr>imported := 0, errors := [], trace := [],
          skipped := length (filter (stored (emails s)) allGmailMessages)\<rparr>"]
    have "msg_id (gmailMsg (?new ! i)) \<in> messageId ` set (emails s)
        \<or> (\<exists>p. p < length ?new \<and> (\<exists>a. analysis_of w p = Inr a)
              \<and> msg_id (gmailMsg (?new ! i)) = msg_id (gmailMsg (?new ! p)))"
      unfolding after_loop_def by auto
    then show False
    proof
      assume "msg_id (gmailMsg (?new ! i)) \<in> messageId ` set (emails s)"
      then have "stored (emails s) (?new ! i)" by (simp add: stored_def)
      moreover have "?new ! i \<in> set ?new" using assms(3) by simp
      ultimately show False by (simp add: new_items_def)
    next
      assume "\<exists>p. p < length ?new \<and> (\<exists>a. analysis_of w p = Inr a)
              \<and> msg_id (gmailMsg (?new ! i)) = msg_id (gmailMsg (?new ! p))"
      then obtain p a where p: "p < length ?new" "analysis_of w p = Inr a"
        "msg_id (gmailMsg (?new ! i)) = msg_id (gmailMsg (?new ! p))" by blast
      with an have "p \<noteq> i" by auto
      with uniq p show False by auto
    qed
  qed
  show ?thesis
    using resp f r prov unfolding tr em
    by (intro exI [of _ "imported ?s'"] exI [of _ "skipped ?s'"] exI [of _ "errors ?s'"])
      (simp add: failure_message_def)
qed


lemma example_new_items:
  "new_items (emails example_state)
     [example_item ''a'' ''A'', example_item ''b'' ''B'', example_item ''c'' ''C'']
   = [example_item ''b'' ''B'', example_item ''c'' ''C'']"
  by (simp add: new_items_def stored_def example_state_def empty_state_def new_row_def
      example_item_def example_message_def)

theorem POST_item_failure_is_isolated_witness:
  "\<not> is429 (JsError (Some ''400 Bad Request''))
   \<and> (\<exists>imp skp errs.
         fst (POST example_failing_world example_state) = Response 200 (SummaryBody imp skp errs)
       \<and> ''Failed to process email: C'' \<in> set errs
       \<and> item_results (trace (snd (POST example_failing_world example_state))) ! 1
           = Settled (Failure (JsError (Some ''400 Bad Request'')))
       \<and> imp = length (filter (\<lambda>r. r = Settled Success)
                   (item_results (trace (snd (POST example_failing_world example_state)))))
       \<and> ''c'' \<notin> messageId ` set (emails (snd (POST example_failing_world example_state))))"
proof -
  let ?all = "[example_item ''a'' ''A'', example_item ''b'' ''B'', example_item ''c'' ''C'']"
  have h2: "\<forall>j < length ?all. filter_findUnique_error example_failing_world j = None"
    by (simp add: example_failing_world_def example_world_def)
  have h3: "1 < length (new_items (emails example_state) ?all)"
    unfolding example_new_items by simp
  have h5: "\<forall>j<1. \<exists>e'. analyzeEmailComplete example_failing_world 1 j = Inl e' \<and> is429 e'"
    by (simp add: example_failing_world_def example_world_def is429_def)
  have h6: "analyzeEmailComplete example_failing_world 1 1 = Inl (JsError (Some ''400 Bad Request''))"
    by (simp add: example_failing_world_def example_world_def)
  have h7: "\<not> is429 (JsError (Some ''400 Bad Request''))"
    by (simp add: is429_def)
  have h8: "emailInsight_upsert_error example_failing_world = None"
    and h9: "statistics_error example_failing_world = None"
    by (simp_all add: example_failing_world_def example_world_def)
  have u: "\<forall>p < length (new_items (emails example_state) ?all). p \<noteq> 1 \<longrightarrow>
            msg_id (gmailMsg (new_items (emails example_state) ?all ! p))
              \<noteq> msg_id (gmailMsg (new_items (emails example_state) ?all ! 1))"
    unfolding example_new_items
    by (auto simp: example_item_def example_message_def less_Suc_eq)
  have c: "subject (gmailMsg (new_items (emails example_state) ?all ! 1)) = ''C''"
    "msg_id (gmailMsg (new_items (emails example_state) ?all ! 1)) = ''c''"
    unfolding example_new_items
    by (simp_all add: example_item_def example_message_def)
  have h4: "(1::nat) < 5" by simp
  from POST_item_failure_is_isolated [OF example_fetch h2 h3 h4 h5 h6 h7 h8 h9] u h7
  show ?thesis
    unfolding c by auto
qed

text \<open>
  As claim C5 is worded, the caller receives the summary whenever an item's analysis throws
  an error that is not retriable. When the upsert of the daily insight fails after the
  loop, the outer \<open>catch\<close> answers 500 instead.
\<close>

theorem POST_item_failure_counterexample:
  "analyzeEmailComplete example_upsert_failing_world 1 1 = Inl (JsError (Some ''400 Bad Request''))
   \<and> \<not> is429 (JsError (Some ''400 Bad Request''))
   \<and> fst (POST example_upsert_failing_world example_state)
       = Response 500 (ErrorBody ''Failed to import emails'' (Some ''database is locked''))"
  by code_simp







end
